theory Spec2Isabelle
  imports Main "HOL-Library.AList" "HOL-Library.Multiset" "HOL-Library.Word"
begin

section \<open>Data model of \<open>src/runtime.ts\<close>\<close>

text \<open>
  \<open>interface NodeSpec { id: string; wasm: string; dependsOn?: string[] }\<close>.
  The field \<open>id\<close> is called \<open>nodeId\<close> here, since \<open>id\<close> is the identity function
  of HOL. The optional field is an option: \<open>None\<close> is JavaScript's \<open>undefined\<close>.
\<close>

record NodeSpec =
  nodeId :: string
  wasm :: string
  dependsOn :: "string list option"

text \<open>\<open>interface ExecutionRecord { input: number; output: number; dependencies: string[] }\<close>\<close>

record ExecutionRecord =
  input :: int
  "output" :: int
  dependencies :: "string list"

text \<open>
  A JavaScript \<open>Map\<close> iterates in insertion order, and \<open>set\<close> on a key that is
  present keeps the key's place: an association list with \<open>AList.update\<close>
  (replace in place, else append); \<open>get\<close> is \<open>map_of\<close>, \<open>has k\<close> is
  \<open>map_of m k \<noteq> None\<close>.
\<close>

type_synonym 'v jsmap = "(string \<times> 'v) list"

type_synonym ExecutionState = "ExecutionRecord jsmap"

text \<open>
  The value a JSON document decodes to (\<open>JSON.parse\<close>). An object is the list of
  its properties; numbers are kept as integers, no function of the source reads one.
\<close>

datatype json =
    JNull
  | JBool bool
  | JNum int
  | JStr string
  | JArr "json list"
  | JObj "(string \<times> json) list"

text \<open>
  Every \<open>throw\<close> of the source, and every exception of the run time that the source
  lets through, is a constructor; the comment gives the place in the source. The
  source throws plain \<open>Error\<close>s with a message; the constructors carry the names the
  specification gives them where it has one.
\<close>

datatype error =
    ReadFailure string                 \<comment> \<open>\<open>readFile(graphPath)\<close> rejects\<close>
  | SyntaxError                        \<comment> \<open>\<open>JSON.parse\<close> throws: the payload does not decode\<close>
  | NodesNotArray                      \<comment> \<open>line 28: 'Graph specification must contain a nodes array.'\<close>
  | TypeError                          \<comment> \<open>line 27: the read of \<open>spec.nodes\<close> on \<open>null\<close> throws a \<open>TypeError\<close>\<close>
  | DuplicateNode string               \<comment> \<open>line 43\<close>
  | UnknownDependency string string    \<comment> \<open>line 53: node, dependency\<close>
  | NodeMissing string                 \<comment> \<open>line 72: 'Internal error: node ... missing during sort.'\<close>
  | NegativeIndegree string            \<comment> \<open>line 79\<close>
  | CyclicGraph                        \<comment> \<open>line 89\<close>
  | MissingUpstreamState string        \<comment> \<open>line 109: 'Missing state for dependency ...'\<close>
  | ModuleLoadFailure string           \<comment> \<open>lines 119-120: \<open>readFile\<close> or \<open>WebAssembly.instantiate\<close> rejects\<close>
  | MissingEntryPoint string           \<comment> \<open>line 123\<close>
  | ModuleTrap string                  \<comment> \<open>line 126: the call of \<open>main\<close> throws\<close>
  | OutsideInterface                   \<comment> \<open>no error of the program: the mark of a document the model does not cover\<close>

text \<open>\<open>node.dependsOn ?? []\<close>\<close>

definition deps :: "NodeSpec \<Rightarrow> string list" where
  "deps node = (case dependsOn node of None \<Rightarrow> [] | Some ds \<Rightarrow> ds)"

section \<open>\<open>topoSort\<close>\<close>

text \<open>The three maps of \<open>topoSort\<close>: \<open>byId\<close>, \<open>inDegree\<close>, \<open>adjacency\<close>.\<close>

type_synonym sort_maps = "NodeSpec jsmap \<times> int jsmap \<times> string list jsmap"

text \<open>Lines 41-48: the first loop registers every node and rejects a repeated id.\<close>

fun register_nodes :: "NodeSpec list \<Rightarrow> sort_maps \<Rightarrow> error + sort_maps" where
  "register_nodes [] m = Inr m"
| "register_nodes (node # rest) (byId, inDegree, adjacency) =
     (if map_of byId (nodeId node) \<noteq> None then Inl (DuplicateNode (nodeId node))
      else register_nodes rest
             (AList.update (nodeId node) node byId,
              AList.update (nodeId node) 0 inDegree,
              AList.update (nodeId node) [] adjacency))"

text \<open>
  Lines 51-57: the inner loop over one node's dependencies.
  \<open>adjacency.get(dep)?.push(node.id)\<close> does nothing when the key is absent.
\<close>

fun link_deps :: "NodeSpec jsmap \<Rightarrow> string \<Rightarrow> string list \<Rightarrow> int jsmap \<times> string list jsmap
    \<Rightarrow> error + (int jsmap \<times> string list jsmap)" where
  "link_deps byId n [] m = Inr m"
| "link_deps byId n (dep # rest) (inDegree, adjacency) =
     (if map_of byId dep = None then Inl (UnknownDependency n dep)
      else link_deps byId n rest
             (AList.update n ((case map_of inDegree n of None \<Rightarrow> 0 | Some d \<Rightarrow> d) + 1) inDegree,
              (case map_of adjacency dep of
                 None \<Rightarrow> adjacency
               | Some l \<Rightarrow> AList.update dep (l @ [n]) adjacency)))"

text \<open>Lines 50-58: the outer loop.\<close>

fun link_nodes :: "NodeSpec jsmap \<Rightarrow> NodeSpec list \<Rightarrow> int jsmap \<times> string list jsmap
    \<Rightarrow> error + (int jsmap \<times> string list jsmap)" where
  "link_nodes byId [] m = Inr m"
| "link_nodes byId (node # rest) m =
     (case link_deps byId (nodeId node) (deps node) m of
        Inl e \<Rightarrow> Inl e
      | Inr m' \<Rightarrow> link_nodes byId rest m')"

text \<open>Lines 60-65: the queue starts with the ids of in-degree 0, in the map's order.\<close>

definition initial_queue :: "int jsmap \<Rightarrow> string list" where
  "initial_queue inDegree = map fst (filter (\<lambda>(i, degree). degree = 0) inDegree)"

text \<open>Lines 76-85: the loop over the neighbours of the node just taken off the queue.\<close>

fun relax :: "string list \<Rightarrow> int jsmap \<Rightarrow> string list \<Rightarrow> error + (int jsmap \<times> string list)" where
  "relax [] inDegree queue = Inr (inDegree, queue)"
| "relax (neighbor # rest) inDegree queue =
     (let nextDegree = (case map_of inDegree neighbor of None \<Rightarrow> 0 | Some d \<Rightarrow> d) - 1 in
      if nextDegree < 0 then Inl (NegativeIndegree neighbor)
      else relax rest (AList.update neighbor nextDegree inDegree)
             (if nextDegree = 0 then queue @ [neighbor] else queue))"

text \<open>The measure of the \<open>while\<close> loop: twice the sum of the in-degrees, plus the queue's length.\<close>

definition degree_sum :: "int jsmap \<Rightarrow> nat" where
  "degree_sum inDegree = sum_list (map (\<lambda>(k, d). nat d) inDegree)"

lemma degree_sum_update:
  "map_of inDegree k = Some d \<Longrightarrow> 1 \<le> d \<Longrightarrow>
   Suc (degree_sum (AList.update k (d - 1) inDegree)) = degree_sum inDegree"
  by (induction inDegree) (auto simp: degree_sum_def nat_diff_distrib split: if_splits)

lemma relax_measure:
  "relax ns inDegree queue = Inr (inDegree', queue') \<Longrightarrow>
   2 * degree_sum inDegree' + length queue' \<le> 2 * degree_sum inDegree + length queue"
proof (induction ns arbitrary: inDegree queue)
  case Nil
  then show ?case by simp
next
  case (Cons n ns)
  show ?case
  proof (cases "map_of inDegree n")
    case None
    with Cons.prems show ?thesis by simp
  next
    case (Some d)
    with Cons.prems have d: "1 \<le> d"
      by (auto simp: Let_def split: if_splits)
    from Cons.prems Some d
    have step: "relax ns (AList.update n (d - 1) inDegree)
                  (if d - 1 = 0 then queue @ [n] else queue) = Inr (inDegree', queue')"
      by (auto simp: Let_def split: if_splits)
    from degree_sum_update [OF Some d] Cons.IH [OF step]
    show ?thesis by (auto split: if_splits)
  qed
qed

text \<open>Lines 67-86: the \<open>while\<close> loop of Kahn's algorithm.\<close>

function kahn_loop :: "NodeSpec jsmap \<Rightarrow> string list jsmap \<Rightarrow> int jsmap \<Rightarrow> string list
    \<Rightarrow> NodeSpec list \<Rightarrow> error + NodeSpec list" where
  "kahn_loop byId adjacency inDegree [] result = Inr result"
| "kahn_loop byId adjacency inDegree (i # queue) result =
     (case map_of byId i of
        None \<Rightarrow> Inl (NodeMissing i)
      | Some node \<Rightarrow>
          (case relax (case map_of adjacency i of None \<Rightarrow> [] | Some l \<Rightarrow> l) inDegree queue of
             Inl e \<Rightarrow> Inl e
           | Inr (inDegree', queue') \<Rightarrow>
               kahn_loop byId adjacency inDegree' queue' (result @ [node])))"
  by pat_completeness auto
termination
proof (relation "measure (\<lambda>(byId, adjacency, inDegree, queue, result).
                   2 * degree_sum inDegree + length queue)")
  show "wf (measure (\<lambda>(byId, adjacency, inDegree, queue, result).
                   2 * degree_sum inDegree + length queue))"
    by simp
next
  fix byId :: "NodeSpec jsmap" and adjacency :: "string list jsmap"
    and inDegree :: "int jsmap" and i queue and result :: "NodeSpec list"
    and node x2 inDegree' queue'
  assume "relax (case map_of adjacency i of None \<Rightarrow> [] | Some l \<Rightarrow> l) inDegree queue = Inr x2"
    and "(inDegree', queue') = x2"
  then have "relax (case map_of adjacency i of None \<Rightarrow> [] | Some l \<Rightarrow> l) inDegree queue
      = Inr (inDegree', queue')"
    by simp
  from relax_measure [OF this]
  show "((byId, adjacency, inDegree', queue', result @ [node]),
         (byId, adjacency, inDegree, i # queue, result))
        \<in> measure (\<lambda>(byId, adjacency, inDegree, queue, result).
                   2 * degree_sum inDegree + length queue)"
    by simp
qed

text \<open>Lines 36-93.\<close>

definition topoSort :: "NodeSpec list \<Rightarrow> error + NodeSpec list" where
  "topoSort nodes =
     (case register_nodes nodes ([], [], []) of
        Inl e \<Rightarrow> Inl e
      | Inr (byId, inDegree0, adjacency0) \<Rightarrow>
          (case link_nodes byId nodes (inDegree0, adjacency0) of
             Inl e \<Rightarrow> Inl e
           | Inr (inDegree, adjacency) \<Rightarrow>
               (case kahn_loop byId adjacency inDegree (initial_queue inDegree) [] of
                  Inl e \<Rightarrow> Inl e
                | Inr result \<Rightarrow>
                    if length result \<noteq> length nodes then Inl CyclicGraph else Inr result)))"

section \<open>\<open>resolveInput\<close>, \<open>executeNode\<close>\<close>

text \<open>Lines 101-112. \<open>deps[deps.length - 1]\<close> is \<open>last\<close>, read only when the list is not empty.\<close>

definition resolveInput :: "NodeSpec \<Rightarrow> ExecutionState \<Rightarrow> error + int" where
  "resolveInput node state =
     (if length (deps node) = 0 then Inr 0
      else (let lastDependency = last (deps node) in
            case map_of state lastDependency of
              None \<Rightarrow> Inl (MissingUpstreamState lastDependency)
            | Some record \<Rightarrow> Inr (output record)))"

text \<open>
  What the source takes from its run time is a parameter of the model.
  A module's \<open>main\<close> is a function on 32-bit integers that may trap (\<open>None\<close>);
  \<open>loadModule\<close> is \<open>readFile\<close> followed by \<open>WebAssembly.instantiate(binary, {})\<close> and
  the read of the export \<open>main\<close>: \<open>None\<close> when one of the first two rejects,
  \<open>NoMain\<close> when the export is absent or not a function.
\<close>

datatype wasm_export = NoMain | Main "32 word \<Rightarrow> 32 word option"

record env =
  readFile :: "string \<Rightarrow> string option"
  jsonParse :: "string \<Rightarrow> json option"
  pathResolve :: "string \<Rightarrow> string \<Rightarrow> string"
  pathDirname :: "string \<Rightarrow> string"
  loadModule :: "string \<Rightarrow> wasm_export option"

text \<open>What a run does to the world outside, in order.\<close>

datatype event =
    ReadGraph string          \<comment> \<open>\<open>readFile(graphPath, 'utf8')\<close>\<close>
  | ReadModule string         \<comment> \<open>\<open>readFile(wasmPath)\<close>\<close>
  | InvokeMain string int     \<comment> \<open>the call of a node's \<open>main\<close> with its input\<close>

text \<open>
  Lines 117-132. The number handed to \<open>main\<close> becomes an \<open>i32\<close> (\<open>word_of_int\<close>), and
  the \<open>i32\<close> it returns is read back signed (\<open>sint\<close>).
\<close>

definition executeNode :: "env \<Rightarrow> string \<Rightarrow> NodeSpec \<Rightarrow> ExecutionState
    \<Rightarrow> event list \<times> (error + ExecutionState)" where
  "executeNode env baseDir node state =
     (let wasmPath = pathResolve env baseDir (wasm node) in
      case loadModule env wasmPath of
        None \<Rightarrow> ([ReadModule wasmPath], Inl (ModuleLoadFailure wasmPath))
      | Some NoMain \<Rightarrow> ([ReadModule wasmPath], Inl (MissingEntryPoint (nodeId node)))
      | Some (Main entry) \<Rightarrow>
          (case resolveInput node state of
             Inl e \<Rightarrow> ([ReadModule wasmPath], Inl e)
           | Inr inp \<Rightarrow>
               (case entry (word_of_int inp) of
                  None \<Rightarrow> ([ReadModule wasmPath, InvokeMain (nodeId node) inp],
                            Inl (ModuleTrap (nodeId node)))
                | Some out \<Rightarrow>
                    ([ReadModule wasmPath, InvokeMain (nodeId node) inp],
                     Inr (AList.update (nodeId node)
                            \<lparr>input = inp, output = sint out, dependencies = deps node\<rparr>
                            state)))))"

section \<open>\<open>loadGraph\<close>, \<open>runGraph\<close>\<close>

text \<open>
  The read of a property of a decoded value: it throws on \<open>null\<close>, gives the field of an
  object (\<open>None\<close> is \<open>undefined\<close>), and \<open>undefined\<close> on a boolean, a number, a string
  or an array, none of which has a property of a graph's names.
\<close>

fun property :: "json \<Rightarrow> string \<Rightarrow> error + json option" where
  "property JNull k = Inl TypeError"
| "property (JObj props) k = Inr (map_of props k)"
| "property v k = Inr None"

text \<open>\<open>Array.isArray\<close>\<close>

fun isArray :: "json option \<Rightarrow> bool" where
  "isArray (Some (JArr xs)) = True"
| "isArray v = False"

text \<open>Lines 24-31.\<close>

definition loadGraph :: "env \<Rightarrow> string \<Rightarrow> error + json" where
  "loadGraph env graphPath =
     (case readFile env graphPath of
        None \<Rightarrow> Inl (ReadFailure graphPath)
      | Some payload \<Rightarrow>
          (case jsonParse env payload of
             None \<Rightarrow> Inl SyntaxError
           | Some spec \<Rightarrow>
               (case property spec ''nodes'' of
                  Inl e \<Rightarrow> Inl e
                | Inr nodes \<Rightarrow> if \<not> isArray nodes then Inl NodesNotArray else Inr spec)))"

text \<open>
  The cast \<open>as GraphSpec\<close> of line 26 checks nothing: the functions after it are typed
  by the interfaces of lines 5-13. \<open>as_NodeSpec\<close> reads a decoded object at the
  interface \<open>NodeSpec\<close>: \<open>id\<close> and \<open>wasm\<close> strings, \<open>dependsOn\<close> absent or an array
  of strings. A \<open>dependsOn\<close> that is \<open>null\<close> is read as absent, as \<open>??\<close> does on lines
  51, 102 and 130; properties of other names are never read.
\<close>

fun as_string :: "json \<Rightarrow> string option" where
  "as_string (JStr s) = Some s"
| "as_string v = None"

fun those_list :: "'a option list \<Rightarrow> 'a list option" where
  "those_list [] = Some []"
| "those_list (None # xs) = None"
| "those_list (Some x # xs) = (case those_list xs of None \<Rightarrow> None | Some ys \<Rightarrow> Some (x # ys))"

fun as_NodeSpec :: "json \<Rightarrow> NodeSpec option" where
  "as_NodeSpec (JObj props) =
     (case (map_of props ''id'', map_of props ''wasm'') of
        (Some (JStr i), Some (JStr w)) \<Rightarrow>
          (case map_of props ''dependsOn'' of
             None \<Rightarrow> Some \<lparr>nodeId = i, wasm = w, dependsOn = None\<rparr>
           | Some JNull \<Rightarrow> Some \<lparr>nodeId = i, wasm = w, dependsOn = None\<rparr>
           | Some (JArr ds) \<Rightarrow>
               (case those_list (map as_string ds) of
                  None \<Rightarrow> None
                | Some l \<Rightarrow> Some \<lparr>nodeId = i, wasm = w, dependsOn = Some l\<rparr>)
           | Some v \<Rightarrow> None)
      | other \<Rightarrow> None)"
| "as_NodeSpec v = None"

text \<open>\<open>graph.nodes\<close>, at the type \<open>NodeSpec[]\<close>.\<close>

definition graph_nodes :: "json \<Rightarrow> NodeSpec list option" where
  "graph_nodes graph =
     (case property graph ''nodes'' of
        Inr (Some (JArr xs)) \<Rightarrow> those_list (map as_NodeSpec xs)
      | other \<Rightarrow> None)"

text \<open>Lines 143-145: the nodes run one after the other; the first failure ends the loop.\<close>

fun run_nodes :: "env \<Rightarrow> string \<Rightarrow> NodeSpec list \<Rightarrow> ExecutionState
    \<Rightarrow> event list \<times> (error + ExecutionState)" where
  "run_nodes env baseDir [] state = ([], Inr state)"
| "run_nodes env baseDir (node # rest) state =
     (case executeNode env baseDir node state of
        (evs, Inl e) \<Rightarrow> (evs, Inl e)
      | (evs, Inr state') \<Rightarrow>
          (case run_nodes env baseDir rest state' of (evs', r) \<Rightarrow> (evs @ evs', r)))"

text \<open>
  Lines 137-148, for a graph file whose nodes are of the interface \<open>NodeSpec\<close>, the
  declared type of the argument of \<open>topoSort\<close> and of \<open>executeNode\<close>. The source
  has no check of this type. On a document outside the interface the model does not
  follow the program (which may sort, run some nodes, fail or succeed there): it
  answers \<open>OutsideInterface\<close>, which stands for no behaviour of the program.
  Every statement about \<open>runGraph\<close> below therefore carries the hypothesis
  \<open>graph_nodes graph = Some nodes\<close>, or is about a failure of the load.
\<close>

definition runGraph :: "env \<Rightarrow> string \<Rightarrow> event list \<times> (error + ExecutionState)" where
  "runGraph env graphPath =
     (case loadGraph env graphPath of
        Inl e \<Rightarrow> ([ReadGraph graphPath], Inl e)
      | Inr graph \<Rightarrow>
          (case graph_nodes graph of
             None \<Rightarrow> ([ReadGraph graphPath], Inl OutsideInterface)
           | Some nodes \<Rightarrow>
               (case topoSort nodes of
                  Inl e \<Rightarrow> ([ReadGraph graphPath], Inl e)
                | Inr ordered \<Rightarrow>
                    (let baseDir = pathDirname env graphPath in
                     case run_nodes env baseDir ordered [] of
                       (evs, r) \<Rightarrow> (ReadGraph graphPath # evs, r)))))"

section \<open>Notions of the specification and of the proofs\<close>

text \<open>The map whose keys are \<open>ks\<close>, in this order, with the value \<open>f k\<close> at \<open>k\<close>.\<close>

definition tab :: "(string \<Rightarrow> 'v) \<Rightarrow> string list \<Rightarrow> 'v jsmap" where
  "tab f ks = map (\<lambda>k. (k, f k)) ks"

text \<open>The map \<open>byId\<close> after the first loop of \<open>topoSort\<close>.\<close>

definition byId_of :: "NodeSpec list \<Rightarrow> NodeSpec jsmap" where
  "byId_of nodes = map (\<lambda>n. (nodeId n, n)) nodes"

text \<open>The in-degree and the adjacency list that the second loop builds.\<close>

definition indegree_of :: "NodeSpec list \<Rightarrow> string \<Rightarrow> int" where
  "indegree_of nodes i = (\<Sum>m\<leftarrow>nodes. if nodeId m = i then int (length (deps m)) else 0)"

definition adjacency_of :: "NodeSpec list \<Rightarrow> string \<Rightarrow> string list" where
  "adjacency_of nodes d = concat (map (\<lambda>m. replicate (count_list (deps m) d) (nodeId m)) nodes)"

text \<open>Every dependency of a node of the sequence is the id of a node before it.\<close>

definition topo_ordered :: "NodeSpec list \<Rightarrow> bool" where
  "topo_ordered res \<longleftrightarrow> (\<forall>k<length res. set (deps (res ! k)) \<subseteq> nodeId ` set (take k res))"

text \<open>The dependencies of a node, with repetitions, that are not yet in the result.\<close>

definition pending :: "NodeSpec list \<Rightarrow> NodeSpec \<Rightarrow> string list" where
  "pending result n = filter (\<lambda>d. d \<notin> nodeId ` set result) (deps n)"

text \<open>
  The invariant of the \<open>while\<close> loop: the result holds nodes of the graph with
  distinct ids, in an order that puts dependencies first; the queue holds distinct
  ids of the graph that are not in the result; the in-degree of a node counts its
  pending dependencies, and is 0 for the ids of the queue and of the result.
\<close>

definition kahn_inv :: "NodeSpec list \<Rightarrow> (string \<Rightarrow> int) \<Rightarrow> string list \<Rightarrow> NodeSpec list \<Rightarrow> bool" where
  "kahn_inv nodes F queue result \<longleftrightarrow>
     set result \<subseteq> set nodes \<and> distinct (map nodeId result) \<and>
     distinct queue \<and> set queue \<subseteq> nodeId ` set nodes \<and>
     set queue \<inter> nodeId ` set result = {} \<and>
     (\<forall>n\<in>set nodes. F (nodeId n) = int (length (pending result n))) \<and>
     (\<forall>i\<in>set queue \<union> nodeId ` set result. F i = 0) \<and>
     topo_ordered result"

text \<open>What the loop returns.\<close>

definition sorted_result :: "NodeSpec list \<Rightarrow> NodeSpec list \<Rightarrow> bool" where
  "sorted_result nodes res \<longleftrightarrow>
     set res \<subseteq> set nodes \<and> distinct (map nodeId res) \<and> topo_ordered res"

text \<open>
  The dependency relation of a graph: \<open>(a, d)\<close> when the node of id \<open>a\<close> lists \<open>d\<close>
  in its \<open>dependsOn\<close>. The graph has a cycle when some id reaches itself in one step
  (a self-loop) or more.
\<close>

definition depends_on :: "NodeSpec list \<Rightarrow> (string \<times> string) set" where
  "depends_on nodes = set (concat (map (\<lambda>n. map (\<lambda>d. (nodeId n, d)) (deps n)) nodes))"

definition cyclic :: "NodeSpec list \<Rightarrow> bool" where
  "cyclic nodes \<longleftrightarrow> (\<exists>i. (i, i) \<in> (depends_on nodes)\<^sup>+)"

text \<open>The ids of a sequence with distinct ids, ordered by position: later before earlier.\<close>

definition later :: "NodeSpec list \<Rightarrow> (string \<times> string) set" where
  "later res = {(a, b). \<exists>i j. i < j \<and> j < length res \<and> nodeId (res ! j) = a \<and> nodeId (res ! i) = b}"

text \<open>
  The error kind \<open>MalformedGraph\<close> of the specification: the payload does not decode
  (the exception of \<open>JSON.parse\<close>), or the decoded value has no array \<open>nodes\<close> (the
  error of line 28).
\<close>

definition MalformedGraph :: "error \<Rightarrow> bool" where
  "MalformedGraph e \<longleftrightarrow> e = SyntaxError \<or> e = NodesNotArray"

text \<open>The module reads of a list of events, in order.\<close>

fun module_reads :: "event list \<Rightarrow> string list" where
  "module_reads [] = []"
| "module_reads (ReadModule q # evs) = q # module_reads evs"
| "module_reads (ev # evs) = module_reads evs"

section \<open>Examples: nodes, graph files, modules, a file system\<close>

text \<open>A node with three dependencies, and states that record the three.\<close>

definition abc_node :: NodeSpec where
  "abc_node = \<lparr>nodeId = ''N'', wasm = ''n.wasm'', dependsOn = Some [''A'', ''B'', ''C'']\<rparr>"

definition abc_state :: "int \<Rightarrow> int \<Rightarrow> int \<Rightarrow> ExecutionState" where
  "abc_state a b c =
     [(''A'', \<lparr>input = 0, output = a, dependencies = []\<rparr>),
      (''B'', \<lparr>input = 0, output = b, dependencies = []\<rparr>),
      (''C'', \<lparr>input = 0, output = c, dependencies = []\<rparr>)]"

text \<open>
  One graph file, \<open>/app/graph.json\<close>, that decodes to a given document, and a given
  loader of modules; \<open>path.dirname\<close> cuts the last component off, \<open>path.resolve\<close>
  puts a relative path under the directory.
\<close>

definition dirname :: "string \<Rightarrow> string" where
  "dirname path = rev (tl (dropWhile (\<lambda>c. c \<noteq> CHR ''/'') (rev path)))"

definition resolve :: "string \<Rightarrow> string \<Rightarrow> string" where
  "resolve dir path = (if take 1 path = ''/'' then path else dir @ ''/'' @ path)"

definition file_env :: "json \<Rightarrow> (string \<Rightarrow> wasm_export option) \<Rightarrow> env" where
  "file_env doc modules = \<lparr>
     readFile = (\<lambda>path. if path = ''/app/graph.json'' then Some ''<graph.json>'' else None),
     jsonParse = (\<lambda>payload. if payload = ''<graph.json>'' then Some doc else None),
     pathResolve = resolve,
     pathDirname = dirname,
     loadModule = modules\<rparr>"

text \<open>
  Modelled from the spec: \<open>graph.json\<close> of the repository is not among the sources.
  The three nodes of the end-to-end scenario, with the field names of the interface
  \<open>NodeSpec\<close> and the layout of the repository (\<open>nodes/*.wasm\<close>).
\<close>

definition demo_graph :: json where
  "demo_graph = JObj [(''nodes'', JArr
     [JObj [(''id'', JStr ''fetchUser''), (''wasm'', JStr ''nodes/fetchUser.wasm'')],
      JObj [(''id'', JStr ''calcDiscount''), (''wasm'', JStr ''nodes/calcDiscount.wasm''),
            (''dependsOn'', JArr [JStr ''fetchUser''])],
      JObj [(''id'', JStr ''renderProfile''), (''wasm'', JStr ''nodes/renderProfile.wasm''),
            (''dependsOn'', JArr [JStr ''calcDiscount''])]])]"

text \<open>
  Modelled from the spec: the modules \<open>nodes/*.rs\<close> are not among the sources.
  \<open>fetchUser\<close> returns 1001 whatever its input, \<open>calcDiscount\<close> returns
  \<open>input * 2 - 1\<close>, \<open>renderProfile\<close> returns \<open>input * 2\<close>, on 32-bit integers.
\<close>

definition demo_modules :: "string \<Rightarrow> wasm_export option" where
  "demo_modules path =
     (if path = ''/app/nodes/fetchUser.wasm'' then Some (Main (\<lambda>x. Some 1001))
      else if path = ''/app/nodes/calcDiscount.wasm'' then Some (Main (\<lambda>x. Some (x * 2 - 1)))
      else if path = ''/app/nodes/renderProfile.wasm'' then Some (Main (\<lambda>x. Some (x * 2)))
      else None)"

text \<open>The file system that holds the graph and the modules of the scenario.\<close>

definition demo_env :: env where
  "demo_env = file_env demo_graph demo_modules"

text \<open>Three nodes; \<open>c\<close> lists \<open>b\<close> twice.\<close>

definition node_a :: NodeSpec where
  "node_a = \<lparr>nodeId = ''a'', wasm = ''a.wasm'', dependsOn = None\<rparr>"

definition node_b :: NodeSpec where
  "node_b = \<lparr>nodeId = ''b'', wasm = ''b.wasm'', dependsOn = Some [''a'']\<rparr>"

definition node_c :: NodeSpec where
  "node_c = \<lparr>nodeId = ''c'', wasm = ''c.wasm'', dependsOn = Some [''b'', ''a'', ''b'']\<rparr>"

text \<open>A node that depends on itself, and a ring of three nodes.\<close>

definition loop_node :: NodeSpec where
  "loop_node = \<lparr>nodeId = ''s'', wasm = ''s.wasm'', dependsOn = Some [''s'']\<rparr>"

definition ring_x :: NodeSpec where
  "ring_x = \<lparr>nodeId = ''x'', wasm = ''x.wasm'', dependsOn = Some [''z'']\<rparr>"

definition ring_y :: NodeSpec where
  "ring_y = \<lparr>nodeId = ''y'', wasm = ''y.wasm'', dependsOn = Some [''x'']\<rparr>"

definition ring_z :: NodeSpec where
  "ring_z = \<lparr>nodeId = ''z'', wasm = ''z.wasm'', dependsOn = Some [''y'']\<rparr>"

text \<open>A graph in which \<open>b\<close> depends on an id that no node has.\<close>

definition ghost_graph :: json where
  "ghost_graph = JObj [(''nodes'', JArr
     [JObj [(''id'', JStr ''a''), (''wasm'', JStr ''a.wasm'')],
      JObj [(''id'', JStr ''b''), (''wasm'', JStr ''b.wasm''),
            (''dependsOn'', JArr [JStr ''a'', JStr ''ghost''])]])]"

definition ghost_b :: NodeSpec where
  "ghost_b = \<lparr>nodeId = ''b'', wasm = ''b.wasm'', dependsOn = Some [''a'', ''ghost'']\<rparr>"

text \<open>The graph files of the nodes \<open>c\<close>, \<open>a\<close>, \<open>b\<close>, and of the self-loop.\<close>

definition twice_graph :: json where
  "twice_graph = JObj [(''nodes'', JArr
     [JObj [(''id'', JStr ''c''), (''wasm'', JStr ''c.wasm''),
            (''dependsOn'', JArr [JStr ''b'', JStr ''a'', JStr ''b''])],
      JObj [(''id'', JStr ''a''), (''wasm'', JStr ''a.wasm'')],
      JObj [(''id'', JStr ''b''), (''wasm'', JStr ''b.wasm''), (''dependsOn'', JArr [JStr ''a''])]])]"

definition loop_graph :: json where
  "loop_graph = JObj [(''nodes'', JArr
     [JObj [(''id'', JStr ''s''), (''wasm'', JStr ''s.wasm''), (''dependsOn'', JArr [JStr ''s''])]])]"

text \<open>The modules of the scenario, that of \<open>calcDiscount\<close> missing.\<close>

definition broken_modules :: "string \<Rightarrow> wasm_export option" where
  "broken_modules path =
     (if path = ''/app/nodes/calcDiscount.wasm'' then None else demo_modules path)"

text \<open>The nodes that the graph of the scenario decodes to, and the state its run returns.\<close>

definition demo_nodes_list :: "NodeSpec list" where
  "demo_nodes_list =
     [\<lparr>nodeId = ''fetchUser'', wasm = ''nodes/fetchUser.wasm'', dependsOn = None\<rparr>,
      \<lparr>nodeId = ''calcDiscount'', wasm = ''nodes/calcDiscount.wasm'', dependsOn = Some [''fetchUser'']\<rparr>,
      \<lparr>nodeId = ''renderProfile'', wasm = ''nodes/renderProfile.wasm'', dependsOn = Some [''calcDiscount'']\<rparr>]"

definition demo_state :: ExecutionState where
  "demo_state =
     [(''fetchUser'', \<lparr>input = 0, output = 1001, dependencies = []\<rparr>),
      (''calcDiscount'', \<lparr>input = 1001, output = 2001, dependencies = [''fetchUser'']\<rparr>),
      (''renderProfile'', \<lparr>input = 2001, output = 4002, dependencies = [''calcDiscount'']\<rparr>)]"

text \<open>
  The graph of one node that has the two fields: \<open>wasm\<close> names the module of
  \<open>fetchUser\<close>, \<open>modulePath\<close> names a module of its own choice.
\<close>

definition two_fields_graph :: "string \<Rightarrow> json" where
  "two_fields_graph modulePath = JObj [(''nodes'', JArr
     [JObj [(''id'', JStr ''fetchUser''), (''wasm'', JStr ''nodes/fetchUser.wasm''),
            (''modulePath'', JStr modulePath)]])]"

section \<open>A file system for the examples\<close>

lemma dirname_app: "dirname ''/app/graph.json'' = ''/app''"
  by (simp add: dirname_def)

lemma loadGraph_file_env:
  "isArray (map_of props ''nodes'') \<Longrightarrow>
   loadGraph (file_env (JObj props) modules) ''/app/graph.json'' = Inr (JObj props)"
  by (simp add: loadGraph_def file_env_def)

section \<open>The three-node scenario\<close>

text \<open>
  C3. A run of the graph of \<open>fetchUser\<close> (no dependency, module returns 1001 whatever
  its input), \<open>calcDiscount\<close> (depends on \<open>fetchUser\<close>, module returns
  \<open>input * 2 - 1\<close>) and \<open>renderProfile\<close> (depends on \<open>calcDiscount\<close>, module returns
  \<open>input * 2\<close>) ends in the state: \<open>fetchUser\<close> input 0, output 1001;
  \<open>calcDiscount\<close> input 1001, output 2001; \<open>renderProfile\<close> input 2001, output 4002.
\<close>

theorem runGraph_scenario:
  assumes g: "loadGraph env p = Inr graph"
    and n: "graph_nodes graph = Some [fetchUser, calcDiscount, renderProfile]"
    and i1: "nodeId fetchUser = ''fetchUser''" and d1: "deps fetchUser = []"
    and i2: "nodeId calcDiscount = ''calcDiscount''" and d2: "deps calcDiscount = [''fetchUser'']"
    and i3: "nodeId renderProfile = ''renderProfile''" and d3: "deps renderProfile = [''calcDiscount'']"
    and m1: "loadModule env (pathResolve env (pathDirname env p) (wasm fetchUser)) = Some (Main f1)"
    and f1: "\<And>x. f1 x = Some 1001"
    and m2: "loadModule env (pathResolve env (pathDirname env p) (wasm calcDiscount)) = Some (Main f2)"
    and f2: "\<And>x. f2 x = Some (x * 2 - 1)"
    and m3: "loadModule env (pathResolve env (pathDirname env p) (wasm renderProfile)) = Some (Main f3)"
    and f3: "\<And>x. f3 x = Some (x * 2)"
  shows "snd (runGraph env p) = Inr
     [(''fetchUser'', \<lparr>input = 0, output = 1001, dependencies = []\<rparr>),
      (''calcDiscount'', \<lparr>input = 1001, output = 2001, dependencies = [''fetchUser'']\<rparr>),
      (''renderProfile'', \<lparr>input = 2001, output = 4002, dependencies = [''calcDiscount'']\<rparr>)]"
proof -
  have t: "topoSort [fetchUser, calcDiscount, renderProfile]
      = Inr [fetchUser, calcDiscount, renderProfile]"
    by (simp add: topoSort_def i1 i2 i3 d1 d2 d3 initial_queue_def)
  have e1: "executeNode env (pathDirname env p) fetchUser []
      = ([ReadModule (pathResolve env (pathDirname env p) (wasm fetchUser)), InvokeMain ''fetchUser'' 0],
         Inr [(''fetchUser'', \<lparr>input = 0, output = 1001, dependencies = []\<rparr>)])"
    by (simp add: executeNode_def m1 f1 resolveInput_def i1 d1)
  have e2: "executeNode env (pathDirname env p) calcDiscount
        [(''fetchUser'', \<lparr>input = 0, output = 1001, dependencies = []\<rparr>)]
      = ([ReadModule (pathResolve env (pathDirname env p) (wasm calcDiscount)), InvokeMain ''calcDiscount'' 1001],
         Inr [(''fetchUser'', \<lparr>input = 0, output = 1001, dependencies = []\<rparr>),
              (''calcDiscount'', \<lparr>input = 1001, output = 2001, dependencies = [''fetchUser'']\<rparr>)])"
    by (simp add: executeNode_def m2 f2 resolveInput_def i2 d2)
  have e3: "executeNode env (pathDirname env p) renderProfile
        [(''fetchUser'', \<lparr>input = 0, output = 1001, dependencies = []\<rparr>),
         (''calcDiscount'', \<lparr>input = 1001, output = 2001, dependencies = [''fetchUser'']\<rparr>)]
      = ([ReadModule (pathResolve env (pathDirname env p) (wasm renderProfile)), InvokeMain ''renderProfile'' 2001],
         Inr [(''fetchUser'', \<lparr>input = 0, output = 1001, dependencies = []\<rparr>),
              (''calcDiscount'', \<lparr>input = 1001, output = 2001, dependencies = [''fetchUser'']\<rparr>),
              (''renderProfile'', \<lparr>input = 2001, output = 4002, dependencies = [''calcDiscount'']\<rparr>)])"
    by (simp add: executeNode_def m3 f3 resolveInput_def i3 d3)
  show ?thesis
    by (simp add: runGraph_def Let_def g n t e1 e2 e3)
qed

lemma demo_load: "loadGraph demo_env ''/app/graph.json'' = Inr demo_graph"
  by (simp add: demo_env_def demo_graph_def loadGraph_file_env)

lemma demo_nodes: "graph_nodes demo_graph = Some
     [\<lparr>nodeId = ''fetchUser'', wasm = ''nodes/fetchUser.wasm'', dependsOn = None\<rparr>,
      \<lparr>nodeId = ''calcDiscount'', wasm = ''nodes/calcDiscount.wasm'', dependsOn = Some [''fetchUser'']\<rparr>,
      \<lparr>nodeId = ''renderProfile'', wasm = ''nodes/renderProfile.wasm'', dependsOn = Some [''calcDiscount'']\<rparr>]"
  by (simp add: graph_nodes_def demo_graph_def)

theorem runGraph_scenario_witness:
  "snd (runGraph demo_env ''/app/graph.json'') = Inr
     [(''fetchUser'', \<lparr>input = 0, output = 1001, dependencies = []\<rparr>),
      (''calcDiscount'', \<lparr>input = 1001, output = 2001, dependencies = [''fetchUser'']\<rparr>),
      (''renderProfile'', \<lparr>input = 2001, output = 4002, dependencies = [''calcDiscount'']\<rparr>)]"
proof (rule runGraph_scenario [OF demo_load demo_nodes])
  show "loadModule demo_env (pathResolve demo_env (pathDirname demo_env ''/app/graph.json'')
          (wasm \<lparr>nodeId = ''fetchUser'', wasm = ''nodes/fetchUser.wasm'', dependsOn = None\<rparr>))
        = Some (Main (\<lambda>x. Some 1001))"
    by (simp add: demo_env_def file_env_def dirname_app resolve_def demo_modules_def)
  show "loadModule demo_env (pathResolve demo_env (pathDirname demo_env ''/app/graph.json'')
          (wasm \<lparr>nodeId = ''calcDiscount'', wasm = ''nodes/calcDiscount.wasm'', dependsOn = Some [''fetchUser'']\<rparr>))
        = Some (Main (\<lambda>x. Some (x * 2 - 1)))"
    by (simp add: demo_env_def file_env_def dirname_app resolve_def demo_modules_def)
  show "loadModule demo_env (pathResolve demo_env (pathDirname demo_env ''/app/graph.json'')
          (wasm \<lparr>nodeId = ''renderProfile'', wasm = ''nodes/renderProfile.wasm'', dependsOn = Some [''calcDiscount'']\<rparr>))
        = Some (Main (\<lambda>x. Some (x * 2)))"
    by (simp add: demo_env_def file_env_def dirname_app resolve_def demo_modules_def)
qed (simp_all add: deps_def)

section \<open>Maps as tables over a fixed list of keys\<close>

lemma map_of_tab: "map_of (tab f ks) k = (if k \<in> set ks then Some (f k) else None)"
  by (induction ks) (auto simp: tab_def)

lemma keys_tab: "map fst (tab f ks) = ks"
  by (induction ks) (auto simp: tab_def)

lemma tab_cong: "(\<And>k. k \<in> set ks \<Longrightarrow> f k = g k) \<Longrightarrow> tab f ks = tab g ks"
  by (simp add: tab_def)

lemma update_append: "k \<notin> fst ` set al \<Longrightarrow> AList.update k v al = al @ [(k, v)]"
  by (induction al) auto

lemma update_tab:
  "distinct ks \<Longrightarrow> k \<in> set ks \<Longrightarrow> AList.update k v (tab f ks) = tab (f(k := v)) ks"
proof (induction ks)
  case Nil
  then show ?case by simp
next
  case (Cons a ks)
  show ?case
  proof (cases "a = k")
    case True
    with Cons.prems have "k \<notin> set ks" by simp
    then have "tab (f(k := v)) ks = tab f ks"
      by (intro tab_cong) auto
    with True show ?thesis by (simp add: tab_def)
  next
    case False
    with Cons show ?thesis by (simp add: tab_def)
  qed
qed

lemma tab_snoc: "tab f (ks @ [k]) = tab f ks @ [(k, f k)]"
  by (simp add: tab_def)

section \<open>The first loop of \<open>topoSort\<close>\<close>

lemma keys_byId_of: "map fst (byId_of nodes) = map nodeId nodes"
  by (simp add: byId_of_def comp_def)

lemma map_of_byId_of_None: "map_of (byId_of nodes) k = None \<longleftrightarrow> k \<notin> set (map nodeId nodes)"
  by (simp add: map_of_eq_None_iff byId_of_def image_image)

lemma map_of_byId_of_Some:
  "distinct (map nodeId nodes) \<Longrightarrow> n \<in> set nodes \<Longrightarrow> map_of (byId_of nodes) (nodeId n) = Some n"
  by (subst map_of_eq_Some_iff) (auto simp: byId_of_def comp_def)

lemma register_nodes_distinct:
  "distinct (map nodeId (pre @ nodes)) \<Longrightarrow>
   register_nodes nodes
     (byId_of pre, tab (\<lambda>k. 0) (map nodeId pre), tab (\<lambda>k. []) (map nodeId pre))
   = Inr (byId_of (pre @ nodes), tab (\<lambda>k. 0) (map nodeId (pre @ nodes)),
          tab (\<lambda>k. []) (map nodeId (pre @ nodes)))"
proof (induction nodes arbitrary: pre)
  case Nil
  then show ?case by simp
next
  case (Cons node rest)
  from Cons.prems have new: "nodeId node \<notin> set (map nodeId pre)"
    by auto
  have b: "AList.update (nodeId node) node (byId_of pre) = byId_of (pre @ [node])"
    using new by (simp add: byId_of_def update_append image_image)
  have d: "AList.update (nodeId node) 0 (tab (\<lambda>k. 0) (map nodeId pre))
      = tab (\<lambda>k. 0::int) (map nodeId (pre @ [node]))"
    using new by (subst update_append) (auto simp: tab_def)
  have a: "AList.update (nodeId node) [] (tab (\<lambda>k. []) (map nodeId pre))
      = tab (\<lambda>k. []::string list) (map nodeId (pre @ [node]))"
    using new by (subst update_append) (auto simp: tab_def)
  from Cons.prems have "distinct (map nodeId ((pre @ [node]) @ rest))"
    by simp
  from Cons.IH [OF this] new show ?case
    by (simp add: map_of_byId_of_None b d a)
qed

lemma register_nodes_duplicate:
  "distinct (map nodeId pre) \<Longrightarrow> \<not> distinct (map nodeId (pre @ nodes)) \<Longrightarrow>
   \<exists>d. register_nodes nodes
     (byId_of pre, tab (\<lambda>k. 0) (map nodeId pre), tab (\<lambda>k. []) (map nodeId pre))
   = Inl (DuplicateNode d)"
proof (induction nodes arbitrary: pre)
  case Nil
  then show ?case by simp
next
  case (Cons node rest)
  show ?case
  proof (cases "nodeId node \<in> set (map nodeId pre)")
    case True
    then show ?thesis by (simp add: map_of_byId_of_None)
  next
    case new: False
    have b: "AList.update (nodeId node) node (byId_of pre) = byId_of (pre @ [node])"
      using new by (simp add: byId_of_def update_append image_image)
    have d: "AList.update (nodeId node) 0 (tab (\<lambda>k. 0) (map nodeId pre))
        = tab (\<lambda>k. 0::int) (map nodeId (pre @ [node]))"
      using new by (subst update_append) (auto simp: tab_def)
    have a: "AList.update (nodeId node) [] (tab (\<lambda>k. []) (map nodeId pre))
        = tab (\<lambda>k. []::string list) (map nodeId (pre @ [node]))"
      using new by (subst update_append) (auto simp: tab_def)
    from Cons.prems new have 1: "distinct (map nodeId (pre @ [node]))"
      and 2: "\<not> distinct (map nodeId ((pre @ [node]) @ rest))"
      by auto
    from Cons.IH [OF 1 2] new show ?thesis
      by (simp add: map_of_byId_of_None b d a)
  qed
qed

section \<open>The second loop of \<open>topoSort\<close>\<close>

lemma link_deps_known:
  assumes "distinct ids" and "n \<in> set ids"
    and "\<And>d. map_of byId d = None \<longleftrightarrow> d \<notin> set ids"
  shows "set ds \<subseteq> set ids \<Longrightarrow>
    link_deps byId n ds (tab F ids, tab G ids)
    = Inr (tab (F(n := F n + int (length ds))) ids,
           tab (\<lambda>d. G d @ replicate (count_list ds d) n) ids)"
proof (induction ds arbitrary: F G)
  case Nil
  then show ?case by simp
next
  case (Cons d rest)
  from Cons.prems have d: "d \<in> set ids" and rest: "set rest \<subseteq> set ids"
    by auto
  have f: "(F(n := F n + 1))(n := (F(n := F n + 1)) n + int (length rest))
      = F(n := F n + int (length (d # rest)))"
    by (auto simp: fun_eq_iff)
  have g: "(\<lambda>x. (G(d := G d @ [n])) x @ replicate (count_list rest x) n)
      = (\<lambda>x. G x @ replicate (count_list (d # rest) x) n)"
    by (auto simp: fun_eq_iff replicate_append_same)
  have "link_deps byId n (d # rest) (tab F ids, tab G ids)
      = link_deps byId n rest (tab (F(n := F n + 1)) ids, tab (G(d := G d @ [n])) ids)"
    using d assms by (simp add: map_of_tab update_tab)
  also have "\<dots> = Inr (tab ((F(n := F n + 1))(n := (F(n := F n + 1)) n + int (length rest))) ids,
      tab (\<lambda>x. (G(d := G d @ [n])) x @ replicate (count_list rest x) n) ids)"
    by (rule Cons.IH [OF rest])
  also have "\<dots> = Inr (tab (F(n := F n + int (length (d # rest)))) ids,
      tab (\<lambda>x. G x @ replicate (count_list (d # rest) x) n) ids)"
    by (simp only: f g)
  finally show ?case .
qed

lemma link_deps_unknown:
  assumes "distinct ids" and "n \<in> set ids"
    and "\<And>d. map_of byId d = None \<longleftrightarrow> d \<notin> set ids"
  shows "\<not> set ds \<subseteq> set ids \<Longrightarrow>
    \<exists>d. d \<in> set ds \<and> d \<notin> set ids \<and>
      link_deps byId n ds (tab F ids, tab G ids) = Inl (UnknownDependency n d)"
proof (induction ds arbitrary: F G)
  case Nil
  then show ?case by simp
next
  case (Cons d rest)
  show ?case
  proof (cases "d \<in> set ids")
    case False
    with assms show ?thesis by simp
  next
    case True
    with Cons.prems have "\<not> set rest \<subseteq> set ids" by auto
    from Cons.IH [OF this, of "F(n := F n + 1)" "G(d := G d @ [n])"]
    obtain u where u: "u \<in> set rest" "u \<notin> set ids"
      and l: "link_deps byId n rest (tab (F(n := F n + 1)) ids, tab (G(d := G d @ [n])) ids)
          = Inl (UnknownDependency n u)"
      by blast
    have "link_deps byId n (d # rest) (tab F ids, tab G ids)
        = link_deps byId n rest (tab (F(n := F n + 1)) ids, tab (G(d := G d @ [n])) ids)"
      using True assms by (simp add: map_of_tab update_tab)
    with l have "link_deps byId n (d # rest) (tab F ids, tab G ids) = Inl (UnknownDependency n u)"
      by (simp only:)
    with u show ?thesis by auto
  qed
qed

lemma link_nodes_known:
  assumes "distinct ids"
    and "\<And>d. map_of byId d = None \<longleftrightarrow> d \<notin> set ids"
  shows "\<forall>m\<in>set rest. nodeId m \<in> set ids \<and> set (deps m) \<subseteq> set ids \<Longrightarrow>
    link_nodes byId rest (tab F ids, tab G ids)
    = Inr (tab (\<lambda>i. F i + indegree_of rest i) ids,
           tab (\<lambda>d. G d @ adjacency_of rest d) ids)"
proof (induction rest arbitrary: F G)
  case Nil
  then show ?case by (simp add: indegree_of_def adjacency_of_def)
next
  case (Cons m rest)
  from Cons.prems have m: "nodeId m \<in> set ids" "set (deps m) \<subseteq> set ids"
    and rest: "\<forall>m\<in>set rest. nodeId m \<in> set ids \<and> set (deps m) \<subseteq> set ids"
    by auto
  have f: "(\<lambda>i. (F(nodeId m := F (nodeId m) + int (length (deps m)))) i + indegree_of rest i)
      = (\<lambda>i. F i + indegree_of (m # rest) i)"
    by (auto simp: fun_eq_iff indegree_of_def)
  have g: "(\<lambda>d. (G d @ replicate (count_list (deps m) d) (nodeId m)) @ adjacency_of rest d)
      = (\<lambda>d. G d @ adjacency_of (m # rest) d)"
    by (auto simp: fun_eq_iff adjacency_of_def)
  have "link_nodes byId (m # rest) (tab F ids, tab G ids)
      = link_nodes byId rest (tab (F(nodeId m := F (nodeId m) + int (length (deps m)))) ids,
          tab (\<lambda>d. G d @ replicate (count_list (deps m) d) (nodeId m)) ids)"
    by (simp add: link_deps_known [OF assms(1) m(1) assms(2) m(2), of F G])
  also have "\<dots> = Inr (tab (\<lambda>i. (F(nodeId m := F (nodeId m) + int (length (deps m)))) i
          + indegree_of rest i) ids,
      tab (\<lambda>d. (G d @ replicate (count_list (deps m) d) (nodeId m)) @ adjacency_of rest d) ids)"
    by (rule Cons.IH [OF rest])
  also have "\<dots> = Inr (tab (\<lambda>i. F i + indegree_of (m # rest) i) ids,
      tab (\<lambda>d. G d @ adjacency_of (m # rest) d) ids)"
    by (simp only: f g)
  finally show ?case .
qed

lemma link_nodes_unknown:
  assumes "distinct ids"
    and "\<And>d. map_of byId d = None \<longleftrightarrow> d \<notin> set ids"
  shows "\<forall>m\<in>set rest. nodeId m \<in> set ids \<Longrightarrow>
    \<exists>m\<in>set rest. \<not> set (deps m) \<subseteq> set ids \<Longrightarrow>
    \<exists>m d. m \<in> set rest \<and> d \<in> set (deps m) \<and> d \<notin> set ids \<and>
      link_nodes byId rest (tab F ids, tab G ids) = Inl (UnknownDependency (nodeId m) d)"
proof (induction rest arbitrary: F G)
  case Nil
  then show ?case by simp
next
  case (Cons m rest)
  from Cons.prems have m: "nodeId m \<in> set ids"
    and rest: "\<forall>m\<in>set rest. nodeId m \<in> set ids"
    by auto
  show ?case
  proof (cases "set (deps m) \<subseteq> set ids")
    case True
    with Cons.prems have "\<exists>m\<in>set rest. \<not> set (deps m) \<subseteq> set ids" by auto
    from Cons.IH [OF rest this, of "F(nodeId m := F (nodeId m) + int (length (deps m)))"
        "\<lambda>d. G d @ replicate (count_list (deps m) d) (nodeId m)"]
    obtain u d where u: "u \<in> set rest" "d \<in> set (deps u)" "d \<notin> set ids"
      and l: "link_nodes byId rest
          (tab (F(nodeId m := F (nodeId m) + int (length (deps m)))) ids,
           tab (\<lambda>d. G d @ replicate (count_list (deps m) d) (nodeId m)) ids)
          = Inl (UnknownDependency (nodeId u) d)"
      by blast
    have "link_nodes byId (m # rest) (tab F ids, tab G ids)
        = link_nodes byId rest (tab (F(nodeId m := F (nodeId m) + int (length (deps m)))) ids,
            tab (\<lambda>d. G d @ replicate (count_list (deps m) d) (nodeId m)) ids)"
      by (simp add: link_deps_known [OF assms(1) m assms(2) True, of F G])
    with l have "link_nodes byId (m # rest) (tab F ids, tab G ids)
        = Inl (UnknownDependency (nodeId u) d)"
      by (simp only:)
    with u show ?thesis by auto
  next
    case False
    from link_deps_unknown [OF assms(1) m assms(2) False, of F G]
    obtain d where "d \<in> set (deps m)" "d \<notin> set ids"
      "link_deps byId (nodeId m) (deps m) (tab F ids, tab G ids)
        = Inl (UnknownDependency (nodeId m) d)"
      by blast
    then show ?thesis by auto
  qed
qed

lemma indegree_of_node:
  "distinct (map nodeId nodes) \<Longrightarrow> n \<in> set nodes \<Longrightarrow>
   indegree_of nodes (nodeId n) = int (length (deps n))"
proof (induction nodes)
  case Nil
  then show ?case by simp
next
  case (Cons m nodes)
  have out: "nodeId n \<notin> nodeId ` set nodes \<Longrightarrow> indegree_of nodes (nodeId n) = 0"
    by (induction nodes) (auto simp: indegree_of_def)
  from Cons out show ?case
    by (auto simp: indegree_of_def)
qed

lemma count_adjacency_of:
  "distinct (map nodeId nodes) \<Longrightarrow> n \<in> set nodes \<Longrightarrow>
   count_list (adjacency_of nodes d) (nodeId n) = count_list (deps n) d"
proof (induction nodes)
  case Nil
  then show ?case by simp
next
  case (Cons m nodes)
  have rep: "\<And>k a b. count_list (replicate k a) b = (if a = b then k else 0)"
    subgoal for k a b by (induction k) auto
    done
  have out: "nodeId n \<notin> nodeId ` set nodes \<Longrightarrow> count_list (adjacency_of nodes d) (nodeId n) = 0"
    by (induction nodes) (auto simp: adjacency_of_def rep)
  from Cons out show ?case
    by (auto simp: adjacency_of_def rep)
qed

lemma set_adjacency_of: "set (adjacency_of nodes d) \<subseteq> nodeId ` set nodes"
  by (auto simp: adjacency_of_def)

section \<open>The loop over the neighbours\<close>

lemma relax_counts:
  assumes "distinct ids"
  shows "\<forall>m\<in>set ns. m \<in> set ids \<and> int (count_list ns m) \<le> F m \<Longrightarrow>
    \<exists>newly. relax ns (tab F ids) q
        = Inr (tab (\<lambda>m. F m - int (count_list ns m)) ids, q @ newly) \<and>
      distinct newly \<and> set newly = {m \<in> set ns. F m = int (count_list ns m)}"
proof (induction ns arbitrary: F q)
  case Nil
  then show ?case by simp
next
  case (Cons n ns)
  from Cons.prems have n: "n \<in> set ids" and Fn: "int (count_list ns n) + 1 \<le> F n"
    by auto
  let ?F = "F(n := F n - 1)"
  let ?q = "if F n - 1 = 0 then q @ [n] else q"
  have pre: "\<forall>m\<in>set ns. m \<in> set ids \<and> int (count_list ns m) \<le> ?F m"
    using Cons.prems Fn by auto
  from Cons.IH [OF pre, of ?q]
  obtain newly where r: "relax ns (tab ?F ids) ?q
        = Inr (tab (\<lambda>m. ?F m - int (count_list ns m)) ids, ?q @ newly)"
    and dn: "distinct newly"
    and sn: "set newly = {m \<in> set ns. ?F m = int (count_list ns m)}"
    by blast
  have f: "(\<lambda>m. ?F m - int (count_list ns m)) = (\<lambda>m. F m - int (count_list (n # ns) m))"
    by (auto simp: fun_eq_iff)
  have step: "relax (n # ns) (tab F ids) q = relax ns (tab ?F ids) ?q"
    using n Fn assms by (simp add: map_of_tab update_tab Let_def)
  let ?newly = "if F n - 1 = 0 then n # newly else newly"
  have "relax (n # ns) (tab F ids) q
      = Inr (tab (\<lambda>m. ?F m - int (count_list ns m)) ids, ?q @ newly)"
    by (simp only: step r)
  also have "\<dots> = Inr (tab (\<lambda>m. F m - int (count_list (n # ns) m)) ids, ?q @ newly)"
    by (simp only: f)
  also have "?q @ newly = q @ ?newly"
    by simp
  finally have 1: "relax (n # ns) (tab F ids) q
      = Inr (tab (\<lambda>m. F m - int (count_list (n # ns) m)) ids, q @ ?newly)" .
  have nn: "F n - 1 = 0 \<Longrightarrow> n \<notin> set ns"
    using Fn by (auto simp: count_list_0_iff [symmetric])
  have 2: "distinct ?newly"
    using dn sn nn by auto
  have eqv: "\<And>m. (?F m = int (count_list ns m)) = (F m = int (count_list (n # ns) m))"
    by auto
  have sn': "set newly = {m \<in> set ns. F m = int (count_list (n # ns) m)}"
    using sn by (simp only: eqv)
  have 3: "set ?newly = {m \<in> set (n # ns). F m = int (count_list (n # ns) m)}"
  proof (cases "F n - 1 = 0")
    case True
    with nn have "count_list ns n = 0" by simp
    with True have "F n = int (count_list (n # ns) n)" by simp
    with True sn' show ?thesis by auto
  next
    case False
    have "F n = int (count_list (n # ns) n) \<Longrightarrow> n \<in> set ns"
    proof (rule ccontr)
      assume "F n = int (count_list (n # ns) n)" and "n \<notin> set ns"
      then have "F n = 1" by simp
      with False show False by simp
    qed
    with False sn' show ?thesis by auto
  qed
  from 1 2 3 show ?case by blast
qed

section \<open>The invariant of the \<open>while\<close> loop\<close>

lemma topo_ordered_snoc:
  "topo_ordered res \<Longrightarrow> set (deps n) \<subseteq> nodeId ` set res \<Longrightarrow> topo_ordered (res @ [n])"
  by (auto simp: topo_ordered_def nth_append less_Suc_eq)

lemma pending_snoc:
  "nodeId node \<notin> nodeId ` set result \<Longrightarrow>
   int (length (pending (result @ [node]) n))
   = int (length (pending result n)) - int (count_list (deps n) (nodeId node))"
proof -
  have "\<And>ds i S. i \<notin> S \<Longrightarrow>
      length (filter (\<lambda>d. d \<notin> insert i S) ds) + count_list ds i = length (filter (\<lambda>d. d \<notin> S) ds)"
    subgoal for ds i S by (induction ds) auto
    done
  from this [of "nodeId node" "nodeId ` set result" "deps n"]
  show "nodeId node \<notin> nodeId ` set result \<Longrightarrow> ?thesis"
    by (simp add: pending_def)
qed

lemma count_le_filter: "i \<notin> S \<Longrightarrow> count_list ds i \<le> length (filter (\<lambda>d. d \<notin> S) ds)"
  by (induction ds) auto

lemma kahn_step:
  assumes dist: "distinct (map nodeId nodes)"
    and inv: "kahn_inv nodes F (i # q) result"
  shows "\<exists>node F' q'. map_of (byId_of nodes) i = Some node \<and>
      relax (adjacency_of nodes i) (tab F (map nodeId nodes)) q
        = Inr (tab F' (map nodeId nodes), q') \<and>
      kahn_inv nodes F' q' (result @ [node])"
proof -
  let ?ids = "map nodeId nodes"
  let ?done = "nodeId ` set result"
  from inv have res: "set result \<subseteq> set nodes" "distinct (map nodeId result)"
    and q: "distinct (i # q)" "set (i # q) \<subseteq> nodeId ` set nodes" "set (i # q) \<inter> ?done = {}"
    and F: "\<forall>n\<in>set nodes. F (nodeId n) = int (length (pending result n))"
    and Z: "\<forall>j\<in>set (i # q) \<union> ?done. F j = 0"
    and topo: "topo_ordered result"
    by (auto simp: kahn_inv_def)
  from q obtain node where node: "node \<in> set nodes" "nodeId node = i"
    by auto
  have byId: "map_of (byId_of nodes) i = Some node"
    using map_of_byId_of_Some [OF dist node(1)] node(2) by simp
  have inew: "i \<notin> ?done"
    using q by auto
  let ?ns = "adjacency_of nodes i"
  have cnt: "\<And>n. n \<in> set nodes \<Longrightarrow> count_list ?ns (nodeId n) = count_list (deps n) i"
    by (rule count_adjacency_of [OF dist])
  have le: "\<And>n. n \<in> set nodes \<Longrightarrow> int (count_list (deps n) i) \<le> F (nodeId n)"
  proof -
    fix n assume n: "n \<in> set nodes"
    have "count_list (deps n) i \<le> length (pending result n)"
      using inew by (simp add: pending_def count_le_filter)
    with F n show "int (count_list (deps n) i) \<le> F (nodeId n)" by simp
  qed
  have pre: "\<forall>m\<in>set ?ns. m \<in> set ?ids \<and> int (count_list ?ns m) \<le> F m"
    using set_adjacency_of [of nodes i] cnt le by auto
  from relax_counts [OF dist pre, of q]
  obtain newly where r: "relax ?ns (tab F ?ids) q
        = Inr (tab (\<lambda>m. F m - int (count_list ?ns m)) ?ids, q @ newly)"
    and dn: "distinct newly"
    and sn: "set newly = {m \<in> set ?ns. F m = int (count_list ?ns m)}"
    by blast
  let ?F = "\<lambda>m. F m - int (count_list ?ns m)"
  have pos: "\<And>m. m \<in> set newly \<Longrightarrow> F m \<noteq> 0"
    using sn by (auto simp: count_list_0_iff)
  have nz: "\<And>m. m \<in> set newly \<Longrightarrow> m \<notin> set (i # q) \<union> ?done"
    using pos Z by blast
  have zero: "\<And>j. F j = 0 \<Longrightarrow> j \<in> set ?ns \<Longrightarrow> False"
    using pre by (fastforce simp: count_list_0_iff)
  have deps_done: "set (deps node) \<subseteq> ?done"
  proof -
    from Z node F have "length (pending result node) = 0" by auto
    then show ?thesis by (auto simp: pending_def filter_empty_conv)
  qed
  have "kahn_inv nodes ?F (q @ newly) (result @ [node])"
    unfolding kahn_inv_def
  proof (intro conjI)
    show "set (result @ [node]) \<subseteq> set nodes" using res node by auto
    show "distinct (map nodeId (result @ [node]))" using res node inew by auto
    show "distinct (q @ newly)" using q dn nz by auto
    show "set (q @ newly) \<subseteq> nodeId ` set nodes"
      using q sn set_adjacency_of [of nodes i] by auto
    show "set (q @ newly) \<inter> nodeId ` set (result @ [node]) = {}"
      using q nz node by auto
    show "\<forall>n\<in>set nodes. ?F (nodeId n) = int (length (pending (result @ [node]) n))"
      using F cnt pending_snoc [of node result] inew node by auto
    show "\<forall>j\<in>set (q @ newly) \<union> nodeId ` set (result @ [node]). ?F j = 0"
    proof
      fix j assume j: "j \<in> set (q @ newly) \<union> nodeId ` set (result @ [node])"
      show "?F j = 0"
      proof (cases "j \<in> set newly")
        case True
        with sn show ?thesis by auto
      next
        case False
        with j node have "j \<in> set (i # q) \<union> ?done" by auto
        with Z have "F j = 0" by blast
        with zero [of j] show ?thesis by (auto simp: count_list_0_iff)
      qed
    qed
    show "topo_ordered (result @ [node])"
      using topo deps_done by (rule topo_ordered_snoc)
  qed
  with byId r show ?thesis by blast
qed

lemma kahn_loop_returns:
  "byId = byId_of nodes \<Longrightarrow> adjacency = tab (adjacency_of nodes) (map nodeId nodes) \<Longrightarrow>
   inDegree = tab F (map nodeId nodes) \<Longrightarrow> distinct (map nodeId nodes) \<Longrightarrow>
   kahn_inv nodes F queue result \<Longrightarrow>
   \<exists>res. kahn_loop byId adjacency inDegree queue result = Inr res \<and> sorted_result nodes res"
proof (induction byId adjacency inDegree queue result arbitrary: F rule: kahn_loop.induct)
  case (1 byId adjacency inDegree result)
  then show ?case by (simp add: kahn_inv_def sorted_result_def)
next
  case (2 byId adjacency inDegree i queue result)
  from kahn_step [OF "2.prems"(4,5)]
  obtain node F' q' where node: "map_of (byId_of nodes) i = Some node"
    and r: "relax (adjacency_of nodes i) (tab F (map nodeId nodes)) queue
        = Inr (tab F' (map nodeId nodes), q')"
    and inv: "kahn_inv nodes F' q' (result @ [node])"
    by blast
  from inv have "i \<in> set (map nodeId nodes)"
    using "2.prems"(5) by (auto simp: kahn_inv_def)
  then have adj: "map_of adjacency i = Some (adjacency_of nodes i)"
    using "2.prems"(2) by (simp add: map_of_tab)
  have r': "relax (case map_of adjacency i of None \<Rightarrow> [] | Some l \<Rightarrow> l) inDegree queue
      = Inr (tab F' (map nodeId nodes), q')"
    using r adj "2.prems"(3) by simp
  have node': "map_of byId i = Some node"
    using node "2.prems"(1) by simp
  from "2.IH" [OF node' r' refl "2.prems"(1,2) refl "2.prems"(4) inv]
  obtain res where "kahn_loop byId adjacency (tab F' (map nodeId nodes)) q' (result @ [node]) = Inr res"
    and "sorted_result nodes res"
    by blast
  with node' r' show ?case by simp
qed

section \<open>The results of \<open>topoSort\<close>\<close>

lemma topoSort_duplicate:
  assumes "\<not> distinct (map nodeId nodes)"
  shows "\<exists>d. topoSort nodes = Inl (DuplicateNode d)"
proof -
  from register_nodes_duplicate [of "[]" nodes] assms
  obtain d where "register_nodes nodes ([], [], []) = Inl (DuplicateNode d)"
    by (auto simp: byId_of_def tab_def)
  then show ?thesis by (auto simp: topoSort_def)
qed

lemma register_nodes_start:
  "distinct (map nodeId nodes) \<Longrightarrow>
   register_nodes nodes ([], [], [])
   = Inr (byId_of nodes, tab (\<lambda>k. 0) (map nodeId nodes), tab (\<lambda>k. []) (map nodeId nodes))"
  using register_nodes_distinct [of "[]" nodes] by (simp add: byId_of_def tab_def)

lemma topoSort_unknown:
  assumes dist: "distinct (map nodeId nodes)"
    and unk: "\<exists>m\<in>set nodes. \<not> set (deps m) \<subseteq> set (map nodeId nodes)"
  shows "\<exists>m d. m \<in> set nodes \<and> d \<in> set (deps m) \<and> d \<notin> set (map nodeId nodes) \<and>
    topoSort nodes = Inl (UnknownDependency (nodeId m) d)"
proof -
  have ids: "\<forall>m\<in>set nodes. nodeId m \<in> set (map nodeId nodes)" by simp
  from link_nodes_unknown [OF dist map_of_byId_of_None ids unk, of "\<lambda>k. 0" "\<lambda>k. []"]
  obtain m d where md: "m \<in> set nodes" "d \<in> set (deps m)" "d \<notin> set (map nodeId nodes)"
    and l: "link_nodes (byId_of nodes) nodes
        (tab (\<lambda>k. 0) (map nodeId nodes), tab (\<lambda>k. []) (map nodeId nodes))
        = Inl (UnknownDependency (nodeId m) d)"
    by blast
  have "topoSort nodes = Inl (UnknownDependency (nodeId m) d)"
    by (simp add: topoSort_def register_nodes_start [OF dist] l)
  with md show ?thesis by blast
qed

lemma initial_queue_tab: "initial_queue (tab F ks) = filter (\<lambda>k. F k = 0) ks"
  by (induction ks) (auto simp: initial_queue_def tab_def)

lemma kahn_inv_start:
  assumes dist: "distinct (map nodeId nodes)"
  shows "kahn_inv nodes (indegree_of nodes)
    (filter (\<lambda>k. indegree_of nodes k = 0) (map nodeId nodes)) []"
  using dist indegree_of_node [OF dist]
  by (auto simp: kahn_inv_def topo_ordered_def pending_def)

lemma topoSort_checked:
  assumes dist: "distinct (map nodeId nodes)"
    and known: "\<forall>m\<in>set nodes. set (deps m) \<subseteq> set (map nodeId nodes)"
  shows "\<exists>res. sorted_result nodes res \<and>
    topoSort nodes = (if length res \<noteq> length nodes then Inl CyclicGraph else Inr res)"
proof -
  let ?ids = "map nodeId nodes"
  have ids: "\<forall>m\<in>set nodes. nodeId m \<in> set ?ids \<and> set (deps m) \<subseteq> set ?ids"
    using known by simp
  have "link_nodes (byId_of nodes) nodes (tab (\<lambda>k. 0) ?ids, tab (\<lambda>k. []) ?ids)
      = Inr (tab (\<lambda>i. 0 + indegree_of nodes i) ?ids, tab (\<lambda>d. [] @ adjacency_of nodes d) ?ids)"
    by (rule link_nodes_known [OF dist map_of_byId_of_None ids])
  then have l: "link_nodes (byId_of nodes) nodes (tab (\<lambda>k. 0) ?ids, tab (\<lambda>k. []) ?ids)
      = Inr (tab (indegree_of nodes) ?ids, tab (adjacency_of nodes) ?ids)"
    by simp
  from kahn_loop_returns [OF refl refl refl dist kahn_inv_start [OF dist]]
  obtain res where k: "kahn_loop (byId_of nodes) (tab (adjacency_of nodes) ?ids)
        (tab (indegree_of nodes) ?ids)
        (filter (\<lambda>k. indegree_of nodes k = 0) ?ids) [] = Inr res"
    and s: "sorted_result nodes res"
    by blast
  have "topoSort nodes = (if length res \<noteq> length nodes then Inl CyclicGraph else Inr res)"
    by (simp add: topoSort_def register_nodes_start [OF dist] l initial_queue_tab k)
  with s show ?thesis by blast
qed

text \<open>What a normal return of \<open>topoSort\<close> says about its argument and its result.\<close>

lemma topoSort_Inr:
  assumes "topoSort nodes = Inr res"
  shows "distinct (map nodeId nodes)"
    and "\<forall>m\<in>set nodes. set (deps m) \<subseteq> set (map nodeId nodes)"
    and "set res = set nodes" and "length res = length nodes"
    and "distinct (map nodeId res)" and "topo_ordered res"
proof -
  show dist: "distinct (map nodeId nodes)"
    using topoSort_duplicate [of nodes] assms by auto
  show known: "\<forall>m\<in>set nodes. set (deps m) \<subseteq> set (map nodeId nodes)"
    using topoSort_unknown [OF dist] assms by auto
  from topoSort_checked [OF dist known] assms
  have s: "sorted_result nodes res" and len: "length res = length nodes"
    by (auto split: if_splits)
  from s show d: "distinct (map nodeId res)" and "topo_ordered res"
    by (auto simp: sorted_result_def)
  show "length res = length nodes" by (rule len)
  from d have dr: "distinct res" by (simp add: distinct_map)
  from dist have dn: "distinct nodes" by (simp add: distinct_map)
  from s have sub: "set res \<subseteq> set nodes" by (simp add: sorted_result_def)
  have "card (set res) = card (set nodes)"
    using dr dn len by (simp add: distinct_card)
  with sub show "set res = set nodes"
    by (simp add: card_subset_eq)
qed

lemma topoSort_outcomes:
  "(\<exists>d. topoSort nodes = Inl (DuplicateNode d)) \<or>
   (\<exists>n d. topoSort nodes = Inl (UnknownDependency n d)) \<or>
   topoSort nodes = Inl CyclicGraph \<or> (\<exists>res. topoSort nodes = Inr res)"
proof (cases "distinct (map nodeId nodes)")
  case False
  with topoSort_duplicate show ?thesis by blast
next
  case dist: True
  show ?thesis
  proof (cases "\<forall>m\<in>set nodes. set (deps m) \<subseteq> set (map nodeId nodes)")
    case False
    with topoSort_unknown [OF dist] show ?thesis by blast
  next
    case True
    from topoSort_checked [OF dist True] show ?thesis by (auto split: if_splits)
  qed
qed

lemma topo_ordered_before:
  assumes "topo_ordered res" and "j < length res" and "d \<in> set (deps (res ! j))"
  shows "\<exists>i<j. nodeId (res ! i) = d"
proof -
  from assms have "d \<in> nodeId ` set (take j res)"
    by (auto simp: topo_ordered_def)
  then obtain x where x: "x \<in> set (take j res)" "nodeId x = d" by auto
  then obtain i where "i < length (take j res)" "take j res ! i = x"
    by (auto simp: in_set_conv_nth)
  with x assms(2) show ?thesis by auto
qed

section \<open>The order that \<open>topoSort\<close> returns\<close>

text \<open>
  C1. Whenever \<open>topoSort\<close> returns normally, the sequence it returns is a permutation
  of its argument, and every id in the \<open>dependsOn\<close> of a node of the result is the id
  of a node that stands strictly before that node in the result.
\<close>

theorem topoSort_permutation_dependencies_first:
  assumes "topoSort nodes = Inr res"
  shows "mset res = mset nodes \<and>
    (\<forall>j<length res. \<forall>d\<in>set (deps (res ! j)). \<exists>i<j. nodeId (res ! i) = d)"
proof
  from topoSort_Inr [OF assms] have "distinct res" "distinct nodes" "set res = set nodes"
    by (auto simp: distinct_map)
  then show "mset res = mset nodes"
    by (simp add: set_eq_iff_mset_eq_distinct)
  from topoSort_Inr(6) [OF assms] topo_ordered_before
  show "\<forall>j<length res. \<forall>d\<in>set (deps (res ! j)). \<exists>i<j. nodeId (res ! i) = d"
    by blast
qed

lemma topoSort_cab: "topoSort [node_c, node_a, node_b] = Inr [node_a, node_b, node_c]"
  by (simp add: topoSort_def node_a_def node_b_def node_c_def deps_def initial_queue_def)

theorem topoSort_permutation_dependencies_first_witness:
  "topoSort [node_c, node_a, node_b] = Inr [node_a, node_b, node_c] \<and>
   mset [node_a, node_b, node_c] = mset [node_c, node_a, node_b] \<and>
   (\<exists>i<2. nodeId ([node_a, node_b, node_c] ! i) = ''b'')"
proof -
  from topoSort_permutation_dependencies_first [OF topoSort_cab]
  have m: "mset [node_a, node_b, node_c] = mset [node_c, node_a, node_b]"
    and t: "\<forall>j<length [node_a, node_b, node_c].
      \<forall>d\<in>set (deps ([node_a, node_b, node_c] ! j)).
        \<exists>i<j. nodeId ([node_a, node_b, node_c] ! i) = d"
    by blast+
  have "''b'' \<in> set (deps ([node_a, node_b, node_c] ! 2))"
    by (simp add: node_c_def deps_def)
  with t have "\<exists>i<2. nodeId ([node_a, node_b, node_c] ! i) = ''b''"
    by (metis length_Cons list.size(3) numeral_2_eq_2 lessI One_nat_def Suc_1)
  with m topoSort_cab show ?thesis by blast
qed

section \<open>Cycles\<close>

lemma nodeId_index:
  "distinct (map nodeId res) \<Longrightarrow> i < length res \<Longrightarrow> j < length res \<Longrightarrow>
   nodeId (res ! i) = nodeId (res ! j) \<Longrightarrow> i = j"
  using nth_eq_iff_index_eq [of "map nodeId res" i j] by simp

lemma later_irrefl: "distinct (map nodeId res) \<Longrightarrow> (a, a) \<notin> later res"
proof
  assume d: "distinct (map nodeId res)" and "(a, a) \<in> later res"
  then obtain i j where ij: "i < j" "j < length res" "nodeId (res ! j) = nodeId (res ! i)"
    by (auto simp: later_def)
  with nodeId_index [OF d, of j i] have "j = i" by simp
  with ij show False by simp
qed

lemma later_trans: "distinct (map nodeId res) \<Longrightarrow> trans (later res)"
proof (rule transI)
  fix a b c
  assume d: "distinct (map nodeId res)" and "(a, b) \<in> later res" and "(b, c) \<in> later res"
  then obtain i j i' j' where 1: "i < j" "j < length res" "nodeId (res ! j) = a" "nodeId (res ! i) = b"
    and 2: "i' < j'" "j' < length res" "nodeId (res ! j') = b" "nodeId (res ! i') = c"
    by (auto simp: later_def)
  from 1 2 nodeId_index [OF d, of j' i] have "j' = i" by simp
  with 1 2 have "i' < j" by simp
  with 1 2 show "(a, c) \<in> later res" by (auto simp: later_def)
qed

lemma topo_ordered_acyclic:
  assumes d: "distinct (map nodeId res)" and t: "topo_ordered res"
  shows "\<not> cyclic res"
proof
  assume "cyclic res"
  then obtain i where i: "(i, i) \<in> (depends_on res)\<^sup>+" by (auto simp: cyclic_def)
  have "depends_on res \<subseteq> later res"
  proof
    fix p assume "p \<in> depends_on res"
    then obtain n dep where p: "p = (nodeId n, dep)" and n: "n \<in> set res" and dep: "dep \<in> set (deps n)"
      by (auto simp: depends_on_def)
    from n obtain j where j: "j < length res" "res ! j = n" by (auto simp: in_set_conv_nth)
    with topo_ordered_before [OF t, of j dep] dep obtain k where "k < j" "nodeId (res ! k) = dep"
      by auto
    with j p show "p \<in> later res" by (auto simp: later_def)
  qed
  then have "(depends_on res)\<^sup>+ \<subseteq> (later res)\<^sup>+" by (rule trancl_mono_subset)
  also have "(later res)\<^sup>+ = later res" using later_trans [OF d] by (rule trancl_id)
  finally have "(i, i) \<in> later res" using i by blast
  with later_irrefl [OF d] show False by blast
qed

lemma depends_on_set: "set res = set nodes \<Longrightarrow> depends_on res = depends_on nodes"
  by (simp add: depends_on_def)

text \<open>
  C4. For a sequence of nodes with unique ids whose \<open>dependsOn\<close> entries all name ids
  of the sequence, if the dependency relation has a cycle (a self-loop included), then
  \<open>topoSort\<close> fails with \<open>CyclicGraph\<close>: it returns no sequence.
\<close>

theorem topoSort_cycle_fails:
  assumes dist: "distinct (map nodeId nodes)"
    and known: "\<forall>n\<in>set nodes. set (deps n) \<subseteq> set (map nodeId nodes)"
    and cyc: "cyclic nodes"
  shows "topoSort nodes = Inl CyclicGraph"
proof (rule ccontr)
  assume "topoSort nodes \<noteq> Inl CyclicGraph"
  with topoSort_checked [OF dist known] obtain res where r: "topoSort nodes = Inr res"
    by (auto split: if_splits)
  have "\<not> cyclic res"
    by (rule topo_ordered_acyclic [OF topoSort_Inr(5) [OF r] topoSort_Inr(6) [OF r]])
  moreover have "depends_on res = depends_on nodes"
    by (rule depends_on_set [OF topoSort_Inr(3) [OF r]])
  ultimately show False using cyc by (simp add: cyclic_def)
qed

theorem topoSort_cycle_fails_witness:
  "topoSort [loop_node] = Inl CyclicGraph \<and>
   topoSort [\<lparr>nodeId = ''r'', wasm = ''r.wasm'', dependsOn = None\<rparr>, ring_x, ring_y, ring_z]
     = Inl CyclicGraph"
proof
  have "(''s'', ''s'') \<in> depends_on [loop_node]"
    by (simp add: depends_on_def loop_node_def deps_def)
  then have "cyclic [loop_node]"
    unfolding cyclic_def by blast
  then show "topoSort [loop_node] = Inl CyclicGraph"
    by (intro topoSort_cycle_fails) (simp_all add: loop_node_def deps_def)
next
  let ?g = "[\<lparr>nodeId = ''r'', wasm = ''r.wasm'', dependsOn = None\<rparr>, ring_x, ring_y, ring_z]"
  have "(''x'', ''z'') \<in> depends_on ?g" "(''z'', ''y'') \<in> depends_on ?g" "(''y'', ''x'') \<in> depends_on ?g"
    by (simp_all add: depends_on_def ring_x_def ring_y_def ring_z_def deps_def)
  then have "(''x'', ''x'') \<in> (depends_on ?g)\<^sup>+"
    by (meson trancl.r_into_trancl trancl_trans)
  then have "cyclic ?g"
    unfolding cyclic_def by blast
  then show "topoSort ?g = Inl CyclicGraph"
    by (intro topoSort_cycle_fails) (simp_all add: ring_x_def ring_y_def ring_z_def deps_def)
qed

section \<open>Unknown dependencies\<close>

text \<open>
  C5. For nodes with unique ids of which one lists, in its \<open>dependsOn\<close>, an id that no
  node has, \<open>topoSort\<close> fails with \<open>UnknownDependency\<close>, naming such a node and such
  an id; and a run of a graph file that decodes to these nodes fails with the same
  error after the read of the graph file alone: no module is read, none is invoked.
\<close>

theorem unknown_dependency_fails_before_modules:
  assumes dist: "distinct (map nodeId nodes)"
    and unk: "\<exists>n\<in>set nodes. \<exists>d\<in>set (deps n). d \<notin> set (map nodeId nodes)"
  shows "\<exists>n d. n \<in> set nodes \<and> d \<in> set (deps n) \<and> d \<notin> set (map nodeId nodes) \<and>
    topoSort nodes = Inl (UnknownDependency (nodeId n) d) \<and>
    (\<forall>env p graph. loadGraph env p = Inr graph \<longrightarrow> graph_nodes graph = Some nodes \<longrightarrow>
       runGraph env p = ([ReadGraph p], Inl (UnknownDependency (nodeId n) d)))"
proof -
  from unk have "\<exists>m\<in>set nodes. \<not> set (deps m) \<subseteq> set (map nodeId nodes)" by auto
  from topoSort_unknown [OF dist this]
  obtain n d where nd: "n \<in> set nodes" "d \<in> set (deps n)" "d \<notin> set (map nodeId nodes)"
    and t: "topoSort nodes = Inl (UnknownDependency (nodeId n) d)"
    by blast
  have "\<forall>env p graph. loadGraph env p = Inr graph \<longrightarrow> graph_nodes graph = Some nodes \<longrightarrow>
       runGraph env p = ([ReadGraph p], Inl (UnknownDependency (nodeId n) d))"
    by (simp add: runGraph_def t)
  with nd t show ?thesis by blast
qed

section \<open>Runs\<close>

lemma executeNode_Inr:
  assumes "executeNode env b n st = (evs, Inr st')"
  shows "\<exists>inp out. resolveInput n st = Inr inp \<and>
      st' = AList.update (nodeId n) \<lparr>input = inp, output = out, dependencies = deps n\<rparr> st \<and>
      evs = [ReadModule (pathResolve env b (wasm n)), InvokeMain (nodeId n) inp]"
  using assms
  by (auto simp: executeNode_def Let_def split: option.splits wasm_export.splits sum.splits)

lemma executeNode_first_event:
  "\<exists>rest. fst (executeNode env b n st) = ReadModule (pathResolve env b (wasm n)) # rest"
  by (auto simp: executeNode_def Let_def split: option.splits wasm_export.splits sum.splits)

lemma executeNode_reads:
  "ReadModule q \<in> set (fst (executeNode env b n st)) \<Longrightarrow> q = pathResolve env b (wasm n)"
  by (auto simp: executeNode_def Let_def split: option.splits wasm_export.splits sum.splits)

lemma executeNode_missing:
  "snd (executeNode env b n st) = Inl (MissingUpstreamState x) \<Longrightarrow>
   resolveInput n st = Inl (MissingUpstreamState x)"
  by (auto simp: executeNode_def Let_def split: option.splits wasm_export.splits sum.splits)

lemma resolveInput_known:
  "set (deps n) \<subseteq> fst ` set st \<Longrightarrow> \<exists>v. resolveInput n st = Inr v"
proof (cases "deps n = []")
  case True
  then show ?thesis by (simp add: resolveInput_def)
next
  case False
  assume "set (deps n) \<subseteq> fst ` set st"
  with False have "last (deps n) \<in> fst ` set st" by auto
  then have "map_of st (last (deps n)) \<noteq> None" by (simp add: map_of_eq_None_iff)
  with False show ?thesis by (auto simp: resolveInput_def)
qed

lemma run_nodes_append:
  "run_nodes env b (xs @ ys) st =
     (case run_nodes env b xs st of
        (evs, Inl e) \<Rightarrow> (evs, Inl e)
      | (evs, Inr st') \<Rightarrow> (case run_nodes env b ys st' of (evs', r) \<Rightarrow> (evs @ evs', r)))"
  by (induction xs arbitrary: st) (auto split: prod.splits sum.splits)

lemma run_nodes_reads:
  "ReadModule q \<in> set (fst (run_nodes env b ns st)) \<Longrightarrow> \<exists>n\<in>set ns. q = pathResolve env b (wasm n)"
proof (induction ns arbitrary: st)
  case Nil
  then show ?case by simp
next
  case (Cons n ns)
  obtain evs r where e: "executeNode env b n st = (evs, r)" by (cases "executeNode env b n st")
  show ?case
  proof (cases r)
    case (Inl err)
    with Cons.prems e executeNode_reads [of q env b n st] show ?thesis by auto
  next
    case (Inr st')
    obtain evs' r' where r: "run_nodes env b ns st' = (evs', r')" by (cases "run_nodes env b ns st'")
    with Cons.prems e Inr have "ReadModule q \<in> set evs \<or> ReadModule q \<in> set evs'" by auto
    then show ?thesis
    proof
      assume "ReadModule q \<in> set evs"
      with e executeNode_reads [of q env b n st] show ?thesis by auto
    next
      assume "ReadModule q \<in> set evs'"
      with r Cons.IH [of st'] show ?thesis by auto
    qed
  qed
qed

lemma module_reads_append: "module_reads (xs @ ys) = module_reads xs @ module_reads ys"
  by (induction xs rule: module_reads.induct) auto

lemma run_nodes_Inr:
  "distinct (map nodeId ns) \<Longrightarrow> nodeId ` set ns \<inter> fst ` set st = {} \<Longrightarrow>
   run_nodes env b ns st = (evs, Inr st') \<Longrightarrow>
   \<exists>new. st' = st @ new \<and> map fst new = map nodeId ns \<and>
     module_reads evs = map (\<lambda>n. pathResolve env b (wasm n)) ns"
proof (induction ns arbitrary: st evs)
  case Nil
  then show ?case by simp
next
  case (Cons n ns)
  from Cons.prems(3) obtain e1 st1 e2 where e: "executeNode env b n st = (e1, Inr st1)"
    and r: "run_nodes env b ns st1 = (e2, Inr st')" and evs: "evs = e1 @ e2"
    by (auto split: prod.splits sum.splits)
  from executeNode_Inr [OF e] obtain inp out
    where st1: "st1 = AList.update (nodeId n) \<lparr>input = inp, output = out, dependencies = deps n\<rparr> st"
      and e1: "e1 = [ReadModule (pathResolve env b (wasm n)), InvokeMain (nodeId n) inp]"
    by blast
  from Cons.prems(2) have "nodeId n \<notin> fst ` set st" by auto
  with st1 have st1': "st1 = st @ [(nodeId n, \<lparr>input = inp, output = out, dependencies = deps n\<rparr>)]"
    by (simp add: update_append)
  from Cons.prems(1,2) st1' have "distinct (map nodeId ns)" "nodeId ` set ns \<inter> fst ` set st1 = {}"
    by auto
  from Cons.IH [OF this r] obtain new where "st' = st1 @ new" "map fst new = map nodeId ns"
    "module_reads e2 = map (\<lambda>n. pathResolve env b (wasm n)) ns"
    by blast
  with st1' evs e1 show ?case by (simp add: module_reads_append)
qed

lemma run_nodes_no_missing:
  "\<forall>k<length ns. set (deps (ns ! k)) \<subseteq> fst ` set st \<union> nodeId ` set (take k ns) \<Longrightarrow>
   snd (run_nodes env b ns st) \<noteq> Inl (MissingUpstreamState x)"
proof (induction ns arbitrary: st)
  case Nil
  then show ?case by simp
next
  case (Cons n ns)
  from Cons.prems have "set (deps n) \<subseteq> fst ` set st" by fastforce
  from resolveInput_known [OF this] obtain v where v: "resolveInput n st = Inr v" ..
  obtain evs r where e: "executeNode env b n st = (evs, r)" by (cases "executeNode env b n st")
  show ?case
  proof (cases r)
    case (Inl err)
    with e v executeNode_missing [of env b n st x] show ?thesis by auto
  next
    case (Inr st')
    from executeNode_Inr [OF e [unfolded Inr]] obtain rec
      where "st' = AList.update (nodeId n) rec st"
      by blast
    then have keys: "fst ` set st' = insert (nodeId n) (fst ` set st)"
      by (simp add: dom_update)
    have "\<forall>k<length ns. set (deps (ns ! k)) \<subseteq> fst ` set st' \<union> nodeId ` set (take k ns)"
    proof (intro allI impI)
      fix k assume "k < length ns"
      with Cons.prems [rule_format, of "Suc k"] keys
      show "set (deps (ns ! k)) \<subseteq> fst ` set st' \<union> nodeId ` set (take k ns)" by auto
    qed
    from Cons.IH [OF this] e Inr show ?thesis
      by (auto split: prod.splits)
  qed
qed

text \<open>The runs of a graph whose nodes are of the interface: what was sorted and run.\<close>

lemma runGraph_typed:
  assumes "loadGraph env p = Inr graph" and "graph_nodes graph = Some nodes"
  shows "runGraph env p =
     (case topoSort nodes of
        Inl e \<Rightarrow> ([ReadGraph p], Inl e)
      | Inr ordered \<Rightarrow>
          (case run_nodes env (pathDirname env p) ordered [] of
             (evs, r) \<Rightarrow> (ReadGraph p # evs, r)))"
  using assms by (cases "topoSort nodes") (simp_all add: runGraph_def Let_def)

lemma runGraph_typed_Inr:
  assumes "loadGraph env p = Inr graph" and "graph_nodes graph = Some nodes"
    and "runGraph env p = (evs, Inr st)"
  shows "\<exists>ordered evs'. topoSort nodes = Inr ordered \<and> evs = ReadGraph p # evs' \<and>
    run_nodes env (pathDirname env p) ordered [] = (evs', Inr st)"
  using assms(3) unfolding runGraph_typed [OF assms(1,2)]
  by (auto split: sum.splits prod.splits)

lemma runGraph_typed_reads:
  assumes "loadGraph env p = Inr graph" and "graph_nodes graph = Some nodes"
    and "ReadModule q \<in> set (fst (runGraph env p))"
  shows "\<exists>n\<in>set nodes. q = pathResolve env (pathDirname env p) (wasm n)"
proof (cases "topoSort nodes")
  case (Inl e)
  with assms(3) show ?thesis unfolding runGraph_typed [OF assms(1,2)] by simp
next
  case t: (Inr ordered)
  obtain evs r where r: "run_nodes env (pathDirname env p) ordered [] = (evs, r)"
    by (cases "run_nodes env (pathDirname env p) ordered []")
  with assms(3) t have "ReadModule q \<in> set (fst (run_nodes env (pathDirname env p) ordered []))"
    unfolding runGraph_typed [OF assms(1,2)] by simp
  from run_nodes_reads [OF this] obtain n where "n \<in> set ordered"
    "q = pathResolve env (pathDirname env p) (wasm n)"
    by blast
  with topoSort_Inr(3) [OF t] show ?thesis by auto
qed

lemma runGraph_snd:
  "loadGraph env p = Inr graph \<Longrightarrow> graph_nodes graph = Some nodes \<Longrightarrow>
   topoSort nodes = Inr ordered \<Longrightarrow>
   snd (runGraph env p) = snd (run_nodes env (pathDirname env p) ordered [])"
  by (cases "run_nodes env (pathDirname env p) ordered []") (simp add: runGraph_def Let_def)

lemma ghost_nodes: "graph_nodes ghost_graph = Some [node_a, ghost_b]"
  by (simp add: graph_nodes_def ghost_graph_def node_a_def ghost_b_def)

lemma ghost_load: "loadGraph (file_env ghost_graph modules) ''/app/graph.json'' = Inr ghost_graph"
  by (simp add: ghost_graph_def loadGraph_file_env)

theorem unknown_dependency_fails_before_modules_witness:
  "topoSort [node_a, ghost_b] = Inl (UnknownDependency ''b'' ''ghost'') \<and>
   runGraph (file_env ghost_graph demo_modules) ''/app/graph.json''
     = ([ReadGraph ''/app/graph.json''], Inl (UnknownDependency ''b'' ''ghost''))"
proof -
  have d: "distinct (map nodeId [node_a, ghost_b])"
    by (simp add: node_a_def ghost_b_def)
  have "''ghost'' \<in> set (deps ghost_b)" "''ghost'' \<notin> set (map nodeId [node_a, ghost_b])"
    by (simp_all add: node_a_def ghost_b_def deps_def)
  then have u: "\<exists>n\<in>set [node_a, ghost_b]. \<exists>d\<in>set (deps n). d \<notin> set (map nodeId [node_a, ghost_b])"
    by (intro bexI [of _ ghost_b] bexI [of _ "''ghost''"]) simp_all
  from unknown_dependency_fails_before_modules [OF d u]
  obtain n d where n: "n \<in> set [node_a, ghost_b]" and dn: "d \<in> set (deps n)"
    and un: "d \<notin> set (map nodeId [node_a, ghost_b])"
    and t: "topoSort [node_a, ghost_b] = Inl (UnknownDependency (nodeId n) d)"
    and r: "\<forall>env p graph. loadGraph env p = Inr graph \<longrightarrow>
        graph_nodes graph = Some [node_a, ghost_b] \<longrightarrow>
        runGraph env p = ([ReadGraph p], Inl (UnknownDependency (nodeId n) d))"
    by blast
  from n dn un have "nodeId n = ''b'' \<and> d = ''ghost''"
    by (auto simp: node_a_def ghost_b_def deps_def)
  with t r ghost_load [of demo_modules] ghost_nodes show ?thesis
    by simp
qed

section \<open>The defensive branches\<close>

text \<open>
  C10. The internal errors are never thrown on nodes that pass the two checks (and
  the checks throw errors of their own): \<open>topoSort\<close> never fails with 'node missing
  during sort' nor with 'negative indegree', also when a node lists a dependency more
  than once; and \<open>resolveInput\<close> never fails with 'missing state for dependency' on
  the nodes that \<open>runGraph\<close> runs in the order \<open>topoSort\<close> returned.
\<close>

theorem defensive_errors_unreachable:
  "topoSort nodes \<noteq> Inl (NodeMissing x) \<and> topoSort nodes \<noteq> Inl (NegativeIndegree x) \<and>
   (topoSort nodes = Inr ordered \<longrightarrow>
      snd (run_nodes env baseDir ordered []) \<noteq> Inl (MissingUpstreamState x)) \<and>
   (loadGraph env p = Inr graph \<longrightarrow> graph_nodes graph = Some nodes \<longrightarrow>
      snd (runGraph env p) \<noteq> Inl (MissingUpstreamState x))"
proof -
  from topoSort_outcomes [of nodes]
  have 1: "topoSort nodes \<noteq> Inl (NodeMissing x)" and 2: "topoSort nodes \<noteq> Inl (NegativeIndegree x)"
    and 0: "topoSort nodes \<noteq> Inl (MissingUpstreamState x)"
    by auto
  have 3: "snd (run_nodes env' b ordered []) \<noteq> Inl (MissingUpstreamState x)"
    if t: "topoSort nodes = Inr ordered" for env' b ordered
  proof (rule run_nodes_no_missing, intro allI impI)
    fix k assume "k < length ordered"
    with topoSort_Inr(6) [OF t]
    show "set (deps (ordered ! k)) \<subseteq> fst ` set [] \<union> nodeId ` set (take k ordered)"
      by (simp add: topo_ordered_def)
  qed
  have 4: "snd (runGraph env p) \<noteq> Inl (MissingUpstreamState x)"
    if l: "loadGraph env p = Inr graph" and g: "graph_nodes graph = Some nodes"
  proof (cases "topoSort nodes")
    case (Inl e)
    with 0 l g show ?thesis by (simp add: runGraph_def)
  next
    case (Inr ordered)
    with 3 [OF Inr, of env "pathDirname env p"] l g show ?thesis
      by (simp add: runGraph_snd)
  qed
  from 1 2 3 4 show ?thesis by blast
qed

lemma twice_nodes: "graph_nodes twice_graph = Some [node_c, node_a, node_b]"
  by (simp add: graph_nodes_def twice_graph_def node_a_def node_b_def node_c_def)

lemma twice_load: "loadGraph (file_env twice_graph modules) ''/app/graph.json'' = Inr twice_graph"
  by (simp add: twice_graph_def loadGraph_file_env)

theorem defensive_errors_unreachable_witness:
  "topoSort [node_c, node_a, node_b] \<noteq> Inl (NodeMissing ''b'') \<and>
   topoSort [node_c, node_a, node_b] \<noteq> Inl (NegativeIndegree ''c'') \<and>
   snd (run_nodes (file_env twice_graph (\<lambda>q. Some (Main (\<lambda>v. Some (v + 1))))) ''/app''
          [node_a, node_b, node_c] []) \<noteq> Inl (MissingUpstreamState ''b'') \<and>
   snd (runGraph (file_env twice_graph (\<lambda>q. Some (Main (\<lambda>v. Some (v + 1))))) ''/app/graph.json'')
     \<noteq> Inl (MissingUpstreamState ''b'')"
  using defensive_errors_unreachable [of "[node_c, node_a, node_b]" "''b''"]
    defensive_errors_unreachable [of "[node_c, node_a, node_b]" "''c''"]
    defensive_errors_unreachable [of "[node_c, node_a, node_b]" "''b''" "[node_a, node_b, node_c]"
      "file_env twice_graph (\<lambda>q. Some (Main (\<lambda>v. Some (v + 1))))" "''/app''"
      "''/app/graph.json''" twice_graph]
    twice_load twice_nodes topoSort_cab
  by simp

section \<open>Failures of a run\<close>

text \<open>
  C6. When a step of \<open>runGraph\<close> fails, the run fails with the error of that step and
  returns no state: the load of the graph, the resolution of the order, or the
  execution of a node after the nodes before it have run and recorded their results.
\<close>

theorem runGraph_fails_with_first_error:
  "(loadGraph env p = Inl e \<longrightarrow> snd (runGraph env p) = Inl e) \<and>
   (loadGraph env p = Inr graph \<longrightarrow> graph_nodes graph = Some nodes \<longrightarrow> topoSort nodes = Inl e \<longrightarrow>
      snd (runGraph env p) = Inl e) \<and>
   (loadGraph env p = Inr graph \<longrightarrow> graph_nodes graph = Some nodes \<longrightarrow>
    topoSort nodes = Inr (pre @ node # post) \<longrightarrow>
    snd (run_nodes env (pathDirname env p) pre []) = Inr state \<longrightarrow>
    snd (executeNode env (pathDirname env p) node state) = Inl e \<longrightarrow>
      snd (runGraph env p) = Inl e)"
proof (intro conjI impI)
  assume "loadGraph env p = Inl e"
  then show "snd (runGraph env p) = Inl e" by (simp add: runGraph_def)
next
  assume "loadGraph env p = Inr graph" "graph_nodes graph = Some nodes" "topoSort nodes = Inl e"
  then show "snd (runGraph env p) = Inl e" by (simp add: runGraph_def)
next
  assume l: "loadGraph env p = Inr graph" and g: "graph_nodes graph = Some nodes"
    and t: "topoSort nodes = Inr (pre @ node # post)"
    and r: "snd (run_nodes env (pathDirname env p) pre []) = Inr state"
    and x: "snd (executeNode env (pathDirname env p) node state) = Inl e"
  from r x have "snd (run_nodes env (pathDirname env p) (pre @ node # post) []) = Inl e"
    by (auto simp: run_nodes_append split: prod.splits sum.splits)
  with l g t show "snd (runGraph env p) = Inl e"
    by (simp add: runGraph_snd)
qed

lemma demo_topoSort: "topoSort demo_nodes_list = Inr demo_nodes_list"
  by (simp add: demo_nodes_list_def topoSort_def deps_def initial_queue_def)

lemma demo_graph_nodes: "graph_nodes demo_graph = Some demo_nodes_list"
  by (simp add: demo_nodes demo_nodes_list_def)

lemma demo_load_any: "loadGraph (file_env demo_graph modules) ''/app/graph.json'' = Inr demo_graph"
  by (simp add: demo_graph_def loadGraph_file_env)

lemma demo_run_nodes:
  "run_nodes demo_env ''/app'' demo_nodes_list [] =
     ([ReadModule ''/app/nodes/fetchUser.wasm'', InvokeMain ''fetchUser'' 0,
       ReadModule ''/app/nodes/calcDiscount.wasm'', InvokeMain ''calcDiscount'' 1001,
       ReadModule ''/app/nodes/renderProfile.wasm'', InvokeMain ''renderProfile'' 2001],
      Inr demo_state)"
  by (simp add: demo_nodes_list_def demo_state_def executeNode_def resolveInput_def deps_def
      demo_env_def file_env_def resolve_def demo_modules_def)

lemma demo_run:
  "runGraph demo_env ''/app/graph.json'' =
     ([ReadGraph ''/app/graph.json'',
       ReadModule ''/app/nodes/fetchUser.wasm'', InvokeMain ''fetchUser'' 0,
       ReadModule ''/app/nodes/calcDiscount.wasm'', InvokeMain ''calcDiscount'' 1001,
       ReadModule ''/app/nodes/renderProfile.wasm'', InvokeMain ''renderProfile'' 2001],
      Inr demo_state)"
proof -
  have "pathDirname demo_env ''/app/graph.json'' = ''/app''"
    by (simp add: demo_env_def file_env_def dirname_app)
  then show ?thesis
    by (simp add: runGraph_def demo_load demo_graph_nodes demo_topoSort demo_run_nodes)
qed

theorem runGraph_fails_with_first_error_witness:
  "snd (runGraph demo_env ''/tmp/graph.json'') = Inl (ReadFailure ''/tmp/graph.json'') \<and>
   snd (runGraph (file_env loop_graph demo_modules) ''/app/graph.json'') = Inl CyclicGraph \<and>
   snd (runGraph (file_env demo_graph broken_modules) ''/app/graph.json'')
     = Inl (ModuleLoadFailure ''/app/nodes/calcDiscount.wasm'')"
proof (intro conjI)
  have "loadGraph demo_env ''/tmp/graph.json'' = Inl (ReadFailure ''/tmp/graph.json'')"
    by (simp add: loadGraph_def demo_env_def file_env_def)
  with runGraph_fails_with_first_error [of demo_env "''/tmp/graph.json''"]
  show "snd (runGraph demo_env ''/tmp/graph.json'') = Inl (ReadFailure ''/tmp/graph.json'')"
    by blast
next
  let ?env = "file_env loop_graph demo_modules"
  have l: "loadGraph ?env ''/app/graph.json'' = Inr loop_graph"
    by (simp add: loop_graph_def loadGraph_file_env)
  have g: "graph_nodes loop_graph = Some [loop_node]"
    by (simp add: graph_nodes_def loop_graph_def loop_node_def)
  have t: "topoSort [loop_node] = Inl CyclicGraph"
    by (simp add: topoSort_def loop_node_def deps_def initial_queue_def)
  from runGraph_fails_with_first_error [of ?env "''/app/graph.json''" _ loop_graph "[loop_node]"] l g t
  show "snd (runGraph ?env ''/app/graph.json'') = Inl CyclicGraph"
    by blast
next
  let ?env = "file_env demo_graph broken_modules"
  let ?f = "\<lparr>nodeId = ''fetchUser'', wasm = ''nodes/fetchUser.wasm'', dependsOn = None\<rparr>"
  let ?c = "\<lparr>nodeId = ''calcDiscount'', wasm = ''nodes/calcDiscount.wasm'', dependsOn = Some [''fetchUser'']\<rparr>"
  let ?r = "\<lparr>nodeId = ''renderProfile'', wasm = ''nodes/renderProfile.wasm'', dependsOn = Some [''calcDiscount'']\<rparr>"
  let ?st = "[(''fetchUser'', \<lparr>input = 0, output = 1001, dependencies = []\<rparr>)]"
  have t: "topoSort demo_nodes_list = Inr ([?f] @ ?c # [?r])"
    by (simp add: demo_topoSort) (simp add: demo_nodes_list_def)
  have r: "snd (run_nodes ?env (pathDirname ?env ''/app/graph.json'') [?f] []) = Inr ?st"
    by (simp add: dirname_app executeNode_def resolveInput_def deps_def
        file_env_def resolve_def broken_modules_def demo_modules_def)
  have x: "snd (executeNode ?env (pathDirname ?env ''/app/graph.json'') ?c ?st)
      = Inl (ModuleLoadFailure ''/app/nodes/calcDiscount.wasm'')"
    by (simp add: dirname_app executeNode_def Let_def file_env_def resolve_def broken_modules_def)
  from runGraph_fails_with_first_error [of ?env "''/app/graph.json''" _ demo_graph demo_nodes_list
      "[?f]" ?c "[?r]" ?st] demo_load_any [of broken_modules] demo_graph_nodes t r x
  show "snd (runGraph ?env ''/app/graph.json'')
      = Inl (ModuleLoadFailure ''/app/nodes/calcDiscount.wasm'')"
    by blast
qed

section \<open>The state of a successful run\<close>

text \<open>
  C7. For a graph file whose nodes are of the interface \<open>NodeSpec\<close>: the keys of the
  state that a successful run returns, in their order of insertion, are the ids of
  the order that \<open>topoSort\<close> resolved, each once; and the state after the first \<open>k\<close>
  nodes have run is the first \<open>k\<close> entries of the final state: a record is inserted
  when its node runs, and no later step changes or removes it.
\<close>

theorem state_keys_in_execution_order:
  assumes l: "loadGraph env p = Inr graph" and g: "graph_nodes graph = Some nodes"
    and run: "runGraph env p = (evs, Inr st)"
  shows "\<exists>ordered. topoSort nodes = Inr ordered \<and>
    map fst st = map nodeId ordered \<and> distinct (map fst st) \<and>
    (\<forall>k\<le>length ordered.
       snd (run_nodes env (pathDirname env p) (take k ordered) []) = Inr (take k st))"
proof -
  let ?b = "pathDirname env p"
  from runGraph_typed_Inr [OF l g run] obtain ordered evs'
    where t: "topoSort nodes = Inr ordered"
      and r: "run_nodes env ?b ordered [] = (evs', Inr st)"
    by blast
  have d: "distinct (map nodeId ordered)" by (rule topoSort_Inr(5) [OF t])
  from run_nodes_Inr [OF d _ r] have keys: "map fst st = map nodeId ordered" by auto
  have pre: "snd (run_nodes env ?b (take k ordered) []) = Inr (take k st)"
    if k: "k \<le> length ordered" for k
  proof -
    from r have ra: "run_nodes env ?b (take k ordered @ drop k ordered) [] = (evs', Inr st)"
      by simp
    obtain e1 r1 where 1: "run_nodes env ?b (take k ordered) [] = (e1, r1)"
      by (cases "run_nodes env ?b (take k ordered) []")
    from ra 1 obtain st1 e2 where r1: "r1 = Inr st1"
      and 2: "run_nodes env ?b (drop k ordered) st1 = (e2, Inr st)"
      unfolding run_nodes_append by (auto split: sum.splits prod.splits)
    from d have dt: "distinct (map nodeId (take k ordered))"
      by (simp add: take_map [symmetric] del: take_map)
    from run_nodes_Inr [OF dt _ 1 [unfolded r1]]
    have k1: "map fst st1 = map nodeId (take k ordered)" by auto
    from d have "distinct (map nodeId (take k ordered @ drop k ordered))" by simp
    then have dd: "distinct (map nodeId (drop k ordered))"
      and dj: "nodeId ` set (drop k ordered) \<inter> nodeId ` set (take k ordered) = {}"
      by (auto simp del: append_take_drop_id)
    from k1 have "fst ` set st1 = nodeId ` set (take k ordered)"
      by (metis list.set_map)
    with dj have "nodeId ` set (drop k ordered) \<inter> fst ` set st1 = {}" by simp
    from run_nodes_Inr [OF dd this 2] obtain new where st: "st = st1 @ new" by blast
    from k1 k have "length st1 = k"
      by (metis length_map length_take min.absorb2)
    with st have "take k st = st1" by simp
    with 1 r1 show ?thesis by simp
  qed
  from t keys d pre show ?thesis by auto
qed

theorem state_keys_in_execution_order_witness:
  "\<exists>ordered. topoSort demo_nodes_list = Inr ordered \<and>
     map fst demo_state = map nodeId ordered \<and> distinct (map fst demo_state) \<and>
     snd (run_nodes demo_env (pathDirname demo_env ''/app/graph.json'') (take 2 ordered) [])
       = Inr (take 2 demo_state)"
proof -
  from state_keys_in_execution_order [OF demo_load demo_graph_nodes demo_run]
  obtain ordered where t: "topoSort demo_nodes_list = Inr ordered"
    and k: "map fst demo_state = map nodeId ordered" and d: "distinct (map fst demo_state)"
    and p: "\<forall>k\<le>length ordered.
       snd (run_nodes demo_env (pathDirname demo_env ''/app/graph.json'') (take k ordered) [])
         = Inr (take k demo_state)"
    by blast
  from k have "length ordered = 3"
    by (metis length_map demo_state_def length_Cons list.size(3) numeral_3_eq_3)
  with p have "snd (run_nodes demo_env (pathDirname demo_env ''/app/graph.json'') (take 2 ordered) [])
       = Inr (take 2 demo_state)"
    by simp
  with t k d show ?thesis by blast
qed

section \<open>The location of a node's module\<close>

text \<open>A \<open>dependsOn\<close> that is \<open>null\<close> is an absent one.\<close>

lemma as_NodeSpec_null_dependsOn:
  "as_NodeSpec (JObj [(''id'', JStr i), (''wasm'', JStr w), (''dependsOn'', JNull)])
     = Some \<lparr>nodeId = i, wasm = w, dependsOn = None\<rparr>"
  by simp

lemma as_NodeSpec_wasm:
  "as_NodeSpec v = Some n \<Longrightarrow> \<exists>props. v = JObj props \<and> map_of props ''wasm'' = Some (JStr (wasm n))"
  by (cases v) (auto split: option.splits json.splits)

text \<open>
  C8, as the code has it. The location of a node's module is the field \<open>wasm\<close> of the
  node's object in the graph description. \<open>executeNode\<close> resolves it against its base
  directory and reads the module at the resolved path first. For a graph file whose
  nodes are of the interface \<open>NodeSpec\<close>, \<open>runGraph\<close> gives the directory of the graph
  file as base directory: every module a run reads is at the \<open>wasm\<close> of a node of the
  graph, resolved against that directory, and a successful run reads exactly these
  paths, in execution order.
\<close>

theorem module_read_at_resolved_wasm:
  "(as_NodeSpec v = Some n \<longrightarrow> (\<exists>props. v = JObj props \<and> map_of props ''wasm'' = Some (JStr (wasm n)))) \<and>
   (\<exists>rest. fst (executeNode env baseDir node state)
      = ReadModule (pathResolve env baseDir (wasm node)) # rest) \<and>
   (loadGraph env p = Inr graph \<longrightarrow> graph_nodes graph = Some nodes \<longrightarrow>
    ReadModule q \<in> set (fst (runGraph env p)) \<longrightarrow>
      (\<exists>m\<in>set nodes. q = pathResolve env (pathDirname env p) (wasm m))) \<and>
   (loadGraph env p = Inr graph \<longrightarrow> graph_nodes graph = Some nodes \<longrightarrow>
    runGraph env p = (evs, Inr st) \<longrightarrow>
      (\<exists>ordered. topoSort nodes = Inr ordered \<and>
         module_reads evs = map (\<lambda>m. pathResolve env (pathDirname env p) (wasm m)) ordered))"
proof (intro conjI impI)
  assume "as_NodeSpec v = Some n"
  then show "\<exists>props. v = JObj props \<and> map_of props ''wasm'' = Some (JStr (wasm n))"
    by (rule as_NodeSpec_wasm)
next
  show "\<exists>rest. fst (executeNode env baseDir node state)
      = ReadModule (pathResolve env baseDir (wasm node)) # rest"
    by (rule executeNode_first_event)
next
  assume "loadGraph env p = Inr graph" "graph_nodes graph = Some nodes"
    "ReadModule q \<in> set (fst (runGraph env p))"
  then show "\<exists>m\<in>set nodes. q = pathResolve env (pathDirname env p) (wasm m)"
    by (rule runGraph_typed_reads)
next
  assume l: "loadGraph env p = Inr graph" and g: "graph_nodes graph = Some nodes"
    and run: "runGraph env p = (evs, Inr st)"
  from runGraph_typed_Inr [OF l g run] obtain ordered evs'
    where t: "topoSort nodes = Inr ordered" and e: "evs = ReadGraph p # evs'"
      and r: "run_nodes env (pathDirname env p) ordered [] = (evs', Inr st)"
    by blast
  from run_nodes_Inr [OF topoSort_Inr(5) [OF t] _ r]
  have "module_reads evs' = map (\<lambda>m. pathResolve env (pathDirname env p) (wasm m)) ordered"
    by auto
  with t e show "\<exists>ordered. topoSort nodes = Inr ordered \<and>
      module_reads evs = map (\<lambda>m. pathResolve env (pathDirname env p) (wasm m)) ordered"
    by auto
qed

theorem module_read_at_resolved_wasm_witness:
  "map_of [(''id'', JStr ''fetchUser''), (''wasm'', JStr ''nodes/fetchUser.wasm'')] ''wasm''
     = Some (JStr ''nodes/fetchUser.wasm'') \<and>
   (\<exists>m\<in>set demo_nodes_list. ''/app/nodes/calcDiscount.wasm''
      = pathResolve demo_env (pathDirname demo_env ''/app/graph.json'') (wasm m)) \<and>
   (\<exists>ordered. topoSort demo_nodes_list = Inr ordered \<and>
      [''/app/nodes/fetchUser.wasm'', ''/app/nodes/calcDiscount.wasm'',
       ''/app/nodes/renderProfile.wasm'']
      = map (\<lambda>m. pathResolve demo_env (pathDirname demo_env ''/app/graph.json'') (wasm m)) ordered)"
proof (intro conjI)
  let ?v = "JObj [(''id'', JStr ''fetchUser''), (''wasm'', JStr ''nodes/fetchUser.wasm'')]"
  let ?n = "\<lparr>nodeId = ''fetchUser'', wasm = ''nodes/fetchUser.wasm'', dependsOn = None\<rparr>"
  have "as_NodeSpec ?v = Some ?n" by simp
  with module_read_at_resolved_wasm [of ?v ?n]
  show "map_of [(''id'', JStr ''fetchUser''), (''wasm'', JStr ''nodes/fetchUser.wasm'')] ''wasm''
     = Some (JStr ''nodes/fetchUser.wasm'')"
    by auto
next
  have "ReadModule ''/app/nodes/calcDiscount.wasm''
      \<in> set (fst (runGraph demo_env ''/app/graph.json''))"
    by (simp add: demo_run)
  with module_read_at_resolved_wasm [of _ _ demo_env _ _ _ "''/app/graph.json''" demo_graph
      demo_nodes_list "''/app/nodes/calcDiscount.wasm''"] demo_load demo_graph_nodes
  show "\<exists>m\<in>set demo_nodes_list. ''/app/nodes/calcDiscount.wasm''
      = pathResolve demo_env (pathDirname demo_env ''/app/graph.json'') (wasm m)"
    by blast
next
  from module_read_at_resolved_wasm [of _ _ demo_env _ _ _ "''/app/graph.json''" demo_graph
      demo_nodes_list] demo_load demo_graph_nodes demo_run
  obtain ordered where "topoSort demo_nodes_list = Inr ordered"
    "module_reads [ReadGraph ''/app/graph.json'',
       ReadModule ''/app/nodes/fetchUser.wasm'', InvokeMain ''fetchUser'' 0,
       ReadModule ''/app/nodes/calcDiscount.wasm'', InvokeMain ''calcDiscount'' 1001,
       ReadModule ''/app/nodes/renderProfile.wasm'', InvokeMain ''renderProfile'' 2001]
     = map (\<lambda>m. pathResolve demo_env (pathDirname demo_env ''/app/graph.json'') (wasm m)) ordered"
    by blast
  then show "\<exists>ordered. topoSort demo_nodes_list = Inr ordered \<and>
      [''/app/nodes/fetchUser.wasm'', ''/app/nodes/calcDiscount.wasm'',
       ''/app/nodes/renderProfile.wasm'']
      = map (\<lambda>m. pathResolve demo_env (pathDirname demo_env ''/app/graph.json'') (wasm m)) ordered"
    by auto
qed

lemma two_fields_run:
  "runGraph (file_env (two_fields_graph modulePath) demo_modules) ''/app/graph.json''
     = ([ReadGraph ''/app/graph.json'', ReadModule ''/app/nodes/fetchUser.wasm'',
         InvokeMain ''fetchUser'' 0],
        Inr [(''fetchUser'', \<lparr>input = 0, output = 1001, dependencies = []\<rparr>)])"
proof -
  let ?env = "file_env (two_fields_graph modulePath) demo_modules"
  let ?n = "\<lparr>nodeId = ''fetchUser'', wasm = ''nodes/fetchUser.wasm'', dependsOn = None\<rparr>"
  have l: "loadGraph ?env ''/app/graph.json'' = Inr (two_fields_graph modulePath)"
    by (simp add: two_fields_graph_def loadGraph_file_env)
  have g: "graph_nodes (two_fields_graph modulePath) = Some [?n]"
    by (simp add: graph_nodes_def two_fields_graph_def)
  have t: "topoSort [?n] = Inr [?n]"
    by (simp add: topoSort_def deps_def initial_queue_def)
  have d: "pathDirname ?env ''/app/graph.json'' = ''/app''"
    by (simp add: file_env_def dirname_app)
  have r: "run_nodes ?env ''/app'' [?n] []
      = ([ReadModule ''/app/nodes/fetchUser.wasm'', InvokeMain ''fetchUser'' 0],
         Inr [(''fetchUser'', \<lparr>input = 0, output = 1001, dependencies = []\<rparr>)])"
    by (simp add: executeNode_def Let_def resolveInput_def deps_def file_env_def resolve_def
        demo_modules_def)
  show ?thesis
    by (simp add: runGraph_typed [OF l g] t d r del: run_nodes.simps)
qed

text \<open>
  C8, as stated, fails: the path in a node's field \<open>modulePath\<close> is not the one that
  is resolved and loaded. A node of the interface that carries, besides \<open>wasm\<close>, a
  field \<open>modulePath\<close> naming the module of \<open>renderProfile\<close> runs the module that
  \<open>wasm\<close> names (the output is that of \<open>fetchUser\<close>); the module that \<open>modulePath\<close>
  names is there and is never read, and another value of \<open>modulePath\<close> gives the same
  run.
\<close>

theorem modulePath_is_not_the_field:
  "runGraph (file_env (two_fields_graph ''nodes/renderProfile.wasm'') demo_modules) ''/app/graph.json''
     = ([ReadGraph ''/app/graph.json'', ReadModule ''/app/nodes/fetchUser.wasm'',
         InvokeMain ''fetchUser'' 0],
        Inr [(''fetchUser'', \<lparr>input = 0, output = 1001, dependencies = []\<rparr>)]) \<and>
   demo_modules (resolve ''/app'' ''nodes/renderProfile.wasm'') \<noteq> None \<and>
   ReadModule (resolve ''/app'' ''nodes/renderProfile.wasm'')
     \<notin> set (fst (runGraph (file_env (two_fields_graph ''nodes/renderProfile.wasm'') demo_modules)
                ''/app/graph.json'')) \<and>
   runGraph (file_env (two_fields_graph ''nodes/calcDiscount.wasm'') demo_modules) ''/app/graph.json''
     = runGraph (file_env (two_fields_graph ''nodes/renderProfile.wasm'') demo_modules)
         ''/app/graph.json''"
  by (simp add: two_fields_run resolve_def demo_modules_def)

section \<open>The input of a node\<close>

text \<open>The guard of lines 108-110: a state without a record for the last dependency.\<close>

lemma resolveInput_guard:
  "deps node \<noteq> [] \<Longrightarrow> map_of state (last (deps node)) = None \<Longrightarrow>
   resolveInput node state = Inl (MissingUpstreamState (last (deps node)))"
  by (simp add: resolveInput_def)

text \<open>The state the run hands to the node at place \<open>k\<close> of a resolved order records its dependencies.\<close>

lemma resolveInput_in_run:
  assumes t: "topoSort nodes = Inr ordered" and k: "k < length ordered"
    and r: "snd (run_nodes env baseDir (take k ordered) []) = Inr stk"
  shows "set (deps (ordered ! k)) \<subseteq> fst ` set stk"
proof -
  obtain e where e: "run_nodes env baseDir (take k ordered) [] = (e, Inr stk)"
    using r by (cases "run_nodes env baseDir (take k ordered) []") simp
  from topoSort_Inr(5) [OF t] have "distinct (map nodeId (take k ordered))"
    by (simp add: take_map [symmetric] del: take_map)
  from run_nodes_Inr [OF this _ e] have "map fst stk = map nodeId (take k ordered)" by auto
  then have "fst ` set stk = nodeId ` set (take k ordered)"
    by (metis list.set_map)
  with topoSort_Inr(6) [OF t] k show ?thesis
    by (simp add: topo_ordered_def)
qed

text \<open>
  C2. \<open>resolveInput\<close> returns 0 when the node has no dependency (\<open>dependsOn\<close> absent or
  empty); otherwise it returns the output recorded for the last element of
  \<open>dependsOn\<close>, and the records of the other dependencies have no part in the result:
  two states that agree on the last dependency give the same result. The states are
  those that hold a record for the last dependency, and so is every state that the
  loop of \<open>runGraph\<close>, the one caller of \<open>resolveInput\<close>, hands it: on the state
  after the first \<open>k\<close> nodes of a resolved order, the node at place \<open>k\<close> gets 0 or the
  recorded output of its last dependency.
\<close>

theorem resolveInput_last_dependency:
  "(deps node = [] \<longrightarrow> resolveInput node state = Inr 0) \<and>
   (deps node \<noteq> [] \<longrightarrow> map_of state (last (deps node)) = Some r \<longrightarrow>
      resolveInput node state = Inr (output r)) \<and>
   (deps node \<noteq> [] \<longrightarrow> map_of state' (last (deps node)) = map_of state (last (deps node)) \<longrightarrow>
      resolveInput node state' = resolveInput node state) \<and>
   (topoSort nodes = Inr ordered \<longrightarrow> k < length ordered \<longrightarrow>
    snd (run_nodes env baseDir (take k ordered) []) = Inr stk \<longrightarrow>
      (deps (ordered ! k) = [] \<longrightarrow> resolveInput (ordered ! k) stk = Inr 0) \<and>
      (deps (ordered ! k) \<noteq> [] \<longrightarrow>
         (\<exists>rec. map_of stk (last (deps (ordered ! k))) = Some rec \<and>
            resolveInput (ordered ! k) stk = Inr (output rec))))"
proof (intro conjI impI)
  assume t: "topoSort nodes = Inr ordered" and k: "k < length ordered"
    and r: "snd (run_nodes env baseDir (take k ordered) []) = Inr stk"
    and ne: "deps (ordered ! k) \<noteq> []"
  from resolveInput_in_run [OF t k r] ne have "last (deps (ordered ! k)) \<in> fst ` set stk"
    by auto
  then have "map_of stk (last (deps (ordered ! k))) \<noteq> None"
    by (simp add: map_of_eq_None_iff)
  then obtain rec where "map_of stk (last (deps (ordered ! k))) = Some rec"
    by auto
  with ne show "\<exists>rec. map_of stk (last (deps (ordered ! k))) = Some rec \<and>
      resolveInput (ordered ! k) stk = Inr (output rec)"
    by (simp add: resolveInput_def)
qed (simp_all add: resolveInput_def)

theorem resolveInput_last_dependency_witness:
  "resolveInput \<lparr>nodeId = ''R'', wasm = ''r.wasm'', dependsOn = None\<rparr> (abc_state 1 2 3) = Inr 0 \<and>
   resolveInput abc_node (abc_state 1 2 3) = Inr 3 \<and>
   resolveInput abc_node (abc_state 10 20 3) = resolveInput abc_node (abc_state 1 2 3) \<and>
   resolveInput (demo_nodes_list ! 1) (take 1 demo_state) = Inr 1001"
proof -
  have e: "deps \<lparr>nodeId = ''R'', wasm = ''r.wasm'', dependsOn = None\<rparr> = []"
    by (simp add: deps_def)
  have ne: "deps abc_node \<noteq> []" and la: "last (deps abc_node) = ''C''"
    by (simp_all add: deps_def abc_node_def)
  have l: "map_of (abc_state 1 2 3) (last (deps abc_node))
      = Some \<lparr>input = 0, output = 3, dependencies = []\<rparr>"
    by (simp add: la abc_state_def)
  have s: "map_of (abc_state 10 20 3) (last (deps abc_node))
      = map_of (abc_state 1 2 3) (last (deps abc_node))"
    by (simp add: la abc_state_def)
  from resolveInput_last_dependency [of "\<lparr>nodeId = ''R'', wasm = ''r.wasm'', dependsOn = None\<rparr>" "abc_state 1 2 3"] e
  have 1: "resolveInput \<lparr>nodeId = ''R'', wasm = ''r.wasm'', dependsOn = None\<rparr> (abc_state 1 2 3) = Inr 0"
    by blast
  from resolveInput_last_dependency [of abc_node "abc_state 1 2 3" "\<lparr>input = 0, output = 3, dependencies = []\<rparr>" "abc_state 10 20 3"] ne l s
  have 2: "resolveInput abc_node (abc_state 1 2 3) = Inr 3"
    and 3: "resolveInput abc_node (abc_state 10 20 3) = resolveInput abc_node (abc_state 1 2 3)"
    by simp_all
  have k: "(1::nat) < length demo_nodes_list"
    by (simp add: demo_nodes_list_def)
  have r: "snd (run_nodes demo_env ''/app'' (take 1 demo_nodes_list) []) = Inr (take 1 demo_state)"
    by (simp add: demo_nodes_list_def demo_state_def executeNode_def resolveInput_def deps_def
        demo_env_def file_env_def resolve_def demo_modules_def)
  have dn: "deps (demo_nodes_list ! 1) \<noteq> []"
    and dl: "last (deps (demo_nodes_list ! 1)) = ''fetchUser''"
    by (simp_all add: demo_nodes_list_def deps_def)
  from resolveInput_last_dependency [of _ _ _ _ demo_nodes_list demo_nodes_list 1 demo_env
      "''/app''" "take 1 demo_state"] demo_topoSort k r dn
  obtain rec where a: "map_of (take 1 demo_state) (last (deps (demo_nodes_list ! 1))) = Some rec"
    and b: "resolveInput (demo_nodes_list ! 1) (take 1 demo_state) = Inr (output rec)"
    by blast
  have ts: "take 1 demo_state = [(''fetchUser'', \<lparr>input = 0, output = 1001, dependencies = []\<rparr>)]"
    by (simp add: demo_state_def)
  from a have "rec = \<lparr>input = 0, output = 1001, dependencies = []\<rparr>"
    unfolding dl ts by simp
  with b have 4: "resolveInput (demo_nodes_list ! 1) (take 1 demo_state) = Inr 1001"
    by simp
  from 1 2 3 4 show ?thesis by simp
qed

section \<open>The load of a graph file\<close>

text \<open>Where \<open>loadGraph\<close> returns, and what it returns.\<close>

lemma loadGraph_Inr_iff:
  "loadGraph env p = Inr graph \<longleftrightarrow>
     (\<exists>payload props xs. readFile env p = Some payload \<and> jsonParse env payload = Some graph \<and>
        graph = JObj props \<and> map_of props ''nodes'' = Some (JArr xs))"
proof -
  have a: "isArray v \<longleftrightarrow> (\<exists>xs. v = Some (JArr xs))" for v
    by (cases v rule: isArray.cases) auto
  show ?thesis
  proof (cases "readFile env p")
    case None
    then show ?thesis by (simp add: loadGraph_def)
  next
    case (Some payload)
    show ?thesis
    proof (cases "jsonParse env payload")
      case None
      with Some show ?thesis by (simp add: loadGraph_def)
    next
      case parsed: (Some spec)
      with Some show ?thesis
        by (cases spec) (auto simp: loadGraph_def a)
    qed
  qed
qed

text \<open>Every failure of the load on a payload that does not decode to \<open>null\<close> is of this kind.\<close>

lemma loadGraph_failure_kinds:
  assumes "loadGraph env p = Inl e" and "readFile env p = Some payload"
    and "jsonParse env payload \<noteq> Some JNull"
  shows "MalformedGraph e"
proof (cases "jsonParse env payload")
  case None
  with assms show ?thesis by (auto simp: loadGraph_def MalformedGraph_def)
next
  case (Some spec)
  with assms show ?thesis
    by (cases spec) (auto simp: loadGraph_def MalformedGraph_def split: if_splits)
qed

text \<open>
  C9. A payload that decodes to \<open>null\<close> does not fail with the error of a malformed
  graph: the read of \<open>spec.nodes\<close> throws a \<open>TypeError\<close> before the check of line 27
  is reached. Its neighbours do as the claim says: a payload that decodes to an
  object without \<open>nodes\<close>, or to a number, fails with the error of line 28, and a
  payload that does not decode fails with the decoder's exception.
\<close>

theorem loadGraph_null_throws_TypeError:
  "loadGraph (file_env JNull modules) ''/app/graph.json'' = Inl TypeError \<and>
   \<not> MalformedGraph TypeError \<and>
   loadGraph (file_env (JObj []) modules) ''/app/graph.json'' = Inl NodesNotArray \<and>
   loadGraph (file_env (JNum 5) modules) ''/app/graph.json'' = Inl NodesNotArray \<and>
   loadGraph ((file_env JNull modules)\<lparr>jsonParse := (\<lambda>payload. None)\<rparr>) ''/app/graph.json''
     = Inl SyntaxError"
  by (simp add: loadGraph_def file_env_def MalformedGraph_def)

end
